theory Spec2Isabelle
  imports Complex_Main "HOL-Library.Product_Lexorder"
begin

section \<open>Grid cells and Python list access\<close>

text \<open>
  A cell is the pair \<open>(row, col)\<close> of Python ints. The occupancy grid is a list of rows,
  \<open>0\<close> meaning free and \<open>1\<close> a wall (or, in the composite view, any blocked cell).
\<close>

type_synonym cell = "int \<times> int"
type_synonym grid = "int list list"

datatype py_error = IndexError | KeyError | ZeroDivisionError

text \<open>\<open>xs[i]\<close> of Python: a negative index counts from the end, out of range raises.\<close>

definition py_get :: "'a list \<Rightarrow> int \<Rightarrow> py_error + 'a" where
  "py_get xs i =
     (if 0 \<le> i \<and> i < int (length xs) then Inr (xs ! nat i)
      else if - int (length xs) \<le> i \<and> i < 0 then Inr (xs ! nat (int (length xs) + i))
      else Inl IndexError)"

text \<open>\<open>grid[r][c]\<close>: two list accesses, the first failure wins.\<close>

definition grid_at :: "grid \<Rightarrow> int \<Rightarrow> int \<Rightarrow> py_error + int" where
  "grid_at grid r c = (case py_get grid r of Inl e \<Rightarrow> Inl e | Inr row \<Rightarrow> py_get row c)"

section \<open>The A* planner of nav\_pygame.py\<close>

definition heuristic :: "cell \<Rightarrow> cell \<Rightarrow> int" where
  "heuristic a b = \<bar>fst a - fst b\<bar> + \<bar>snd a - snd b\<bar>"

text \<open>
  The heap holds tuples \<open>(f, cost, cell)\<close>, compared as Python compares tuples:
  lexicographically. Only the multiset of entries and the extraction of the least one
  are observable, so the heap is kept as the list of its entries. \<open>heappop\<close> is called
  under \<open>while openq\<close> only, on a heap that is not empty.
\<close>

type_synonym entry = "int \<times> int \<times> cell"

definition heappush :: "entry list \<Rightarrow> entry \<Rightarrow> entry list" where
  "heappush q e = e # q"

fun heappop :: "entry list \<Rightarrow> entry \<times> entry list" where
  "heappop (x # xs) = (let m = fold min xs x in (m, remove1 m (x # xs)))"

record astar_state =
  openq :: "entry list"
  came :: "cell \<rightharpoonup> cell"
  gcost :: "cell \<rightharpoonup> int"
  visited :: "cell set"

text \<open>The four moves, in the order of the source's \<open>for dr, dc in ...\<close>.\<close>

definition moves4 :: "(int \<times> int) list" where
  "moves4 = [(1, 0), (-1, 0), (0, 1), (0, -1)]"

text \<open>
  One pass of the body of the \<open>for dr, dc\<close> loop, for the popped cell \<open>current\<close>.
  \<open>g[current]\<close> raises KeyError on a missing key; \<open>g.get(n, 1e9)\<close> defaults to
  \<open>1e9\<close>.
\<close>

definition relax :: "grid \<Rightarrow> int \<Rightarrow> int \<Rightarrow> cell \<Rightarrow> cell \<Rightarrow> int \<times> int \<Rightarrow> astar_state
    \<Rightarrow> py_error + astar_state" where
  "relax grid rows cols goal current d st =
     (let nr = fst current + fst d; nc = snd current + snd d in
      if 0 \<le> nr \<and> nr < rows \<and> 0 \<le> nc \<and> nc < cols then
        (case grid_at grid nr nc of
           Inl e \<Rightarrow> Inl e
         | Inr v \<Rightarrow>
             if v = 0 then
               (case gcost st current of
                  None \<Rightarrow> Inl KeyError
                | Some gc \<Rightarrow>
                    let tentative = gc + 1 in
                    if tentative < (case gcost st (nr, nc) of None \<Rightarrow> 1000000000 | Some x \<Rightarrow> x)
                    then Inr (st\<lparr>came := (came st)((nr, nc) \<mapsto> current),
                                 gcost := (gcost st)((nr, nc) \<mapsto> tentative),
                                 openq := heappush (openq st)
                                    (tentative + heuristic (nr, nc) goal, tentative, (nr, nc))\<rparr>)
                    else Inr st)
             else Inr st)
      else Inr st)"

fun relax_all :: "grid \<Rightarrow> int \<Rightarrow> int \<Rightarrow> cell \<Rightarrow> cell \<Rightarrow> (int \<times> int) list \<Rightarrow> astar_state
    \<Rightarrow> py_error + astar_state" where
  "relax_all grid rows cols goal current [] st = Inr st"
| "relax_all grid rows cols goal current (d # ds) st =
     (case relax grid rows cols goal current d st of
        Inl e \<Rightarrow> Inl e
      | Inr st' \<Rightarrow> relax_all grid rows cols goal current ds st')"

text \<open>
  The path reconstruction \<open>while current in came: ...\<close>. It follows \<open>came\<close> for as long
  as the key is present, so on a cyclic map it does not return: the result \<open>None\<close>.
\<close>

partial_function (option) reconstruct :: "(cell \<rightharpoonup> cell) \<Rightarrow> cell \<Rightarrow> cell list \<Rightarrow> cell list option"
  where
  "reconstruct cm current path =
     (case cm current of
        None \<Rightarrow> Some path
      | Some p \<Rightarrow> reconstruct cm p (path @ [p]))"

declare reconstruct.simps [code]

text \<open>
  The result of a planner call: \<open>None\<close> when the call does not return, otherwise
  \<open>Some (Inl e)\<close> for a raised exception and \<open>Some (Inr r)\<close> for the returned value,
  \<open>r = None\<close> being Python's \<open>None\<close> and \<open>r = Some path\<close> a list of cells.
\<close>

type_synonym astar_result = "(py_error + cell list option) option"

text \<open>
  Termination of the loop: a round either drops an entry of a visited cell or marks a new
  cell visited, and the cells that can still be marked are those inside the grid and those
  in the heap.
\<close>

definition in_grid :: "int \<Rightarrow> int \<Rightarrow> cell set" where
  "in_grid rows cols = {0..<rows} \<times> {0..<cols}"

definition pending :: "int \<Rightarrow> int \<Rightarrow> astar_state \<Rightarrow> cell set" where
  "pending rows cols st = (in_grid rows cols \<union> (snd \<circ> snd) ` set (openq st)) - visited st"

lemma finite_pending: "finite (pending rows cols st)"
  by (simp add: pending_def in_grid_def)

lemma fold_min_Min: "fold min xs (x::'a::linorder) = Min (set (x # xs))"
  by (rule Min.set_eq_fold [symmetric])

lemma heappop_in: "q \<noteq> [] \<Longrightarrow> fst (heappop q) \<in> set q"
proof (cases q)
  case (Cons x xs)
  have "Min (set (x # xs)) \<in> set (x # xs)" by (rule Min_in) simp_all
  then show ?thesis using Cons by (simp add: fold_min_Min Let_def del: set_simps)
qed simp

lemma heappop_le: "q \<noteq> [] \<Longrightarrow> e \<in> set q \<Longrightarrow> fst (heappop q) \<le> e"
proof (cases q)
  case (Cons x xs)
  assume "e \<in> set q"
  then have "Min (set (x # xs)) \<le> e" using Cons by (intro Min_le) simp_all
  then show ?thesis using Cons by (simp add: fold_min_Min Let_def del: set_simps)
qed simp

lemma heappop_rest: "q \<noteq> [] \<Longrightarrow> snd (heappop q) = remove1 (fst (heappop q)) q"
  by (cases q) (simp_all add: Let_def)

lemma heappop_subset: "q \<noteq> [] \<Longrightarrow> set (snd (heappop q)) \<subseteq> set q"
  by (simp add: heappop_rest set_remove1_subset)

lemma relax_visited: "relax grid rows cols goal cur d st = Inr st' \<Longrightarrow> visited st' = visited st"
  by (auto simp: relax_def Let_def split: if_splits sum.splits option.splits)

lemma relax_openq_cells:
  "relax grid rows cols goal cur d st = Inr st' \<Longrightarrow>
   (snd \<circ> snd) ` set (openq st') \<subseteq> in_grid rows cols \<union> (snd \<circ> snd) ` set (openq st)"
  by (auto simp: relax_def Let_def heappush_def in_grid_def
      split: if_splits sum.splits option.splits)

lemma relax_all_visited:
  "relax_all grid rows cols goal cur ds st = Inr st' \<Longrightarrow> visited st' = visited st"
proof (induction ds arbitrary: st)
  case (Cons d ds)
  then show ?case by (auto split: sum.splits dest: relax_visited)
qed simp

lemma relax_all_openq_cells:
  "relax_all grid rows cols goal cur ds st = Inr st' \<Longrightarrow>
   (snd \<circ> snd) ` set (openq st') \<subseteq> in_grid rows cols \<union> (snd \<circ> snd) ` set (openq st)"
proof (induction ds arbitrary: st)
  case (Cons d ds)
  from Cons.prems obtain st1 where
    r: "relax grid rows cols goal cur d st = Inr st1" and
    ra: "relax_all grid rows cols goal cur ds st1 = Inr st'"
    by (auto split: sum.splits)
  from Cons.IH [OF ra] relax_openq_cells [OF r] show ?case by blast
qed simp

text \<open>
  The \<open>while openq\<close> loop. Each round pops the least entry; it returns at the goal, skips
  a cell already visited, and otherwise marks the cell visited and relaxes its four moves.
\<close>

function astar_loop :: "grid \<Rightarrow> int \<Rightarrow> int \<Rightarrow> cell \<Rightarrow> astar_state \<Rightarrow> astar_result" where
  "astar_loop grid rows cols goal st =
     (if openq st = [] then Some (Inr None)
      else
        let current = snd (snd (fst (heappop (openq st))));
            st1 = st\<lparr>openq := snd (heappop (openq st))\<rparr>
        in
        if current = goal then
          map_option (\<lambda>p. Inr (Some (rev p))) (reconstruct (came st1) current [current])
        else if current \<in> visited st1 then astar_loop grid rows cols goal st1
        else
          (case relax_all grid rows cols goal current moves4
                  (st1\<lparr>visited := insert current (visited st1)\<rparr>) of
             Inl e \<Rightarrow> Some (Inl e)
           | Inr st2 \<Rightarrow> astar_loop grid rows cols goal st2))"
  by pat_completeness auto
termination
proof (relation "measures [\<lambda>(grid, rows, cols, goal, st). card (pending rows cols st),
                          \<lambda>(grid, rows, cols, goal, st). length (openq st)]", goal_cases)
  case 1
  show ?case by simp
next
  case (2 grid rows cols goal st current st1)
  then have ne: "openq st \<noteq> []" by simp
  have sub: "set (snd (heappop (openq st))) \<subseteq> set (openq st)"
    using ne by (rule heappop_subset)
  have "pending rows cols st1 \<subseteq> pending rows cols st"
    using sub 2 by (auto simp: pending_def)
  then have "card (pending rows cols st1) \<le> card (pending rows cols st)"
    by (intro card_mono finite_pending)
  moreover have "length (openq st1) < length (openq st)"
    using ne heappop_in [OF ne] 2 by (simp add: heappop_rest length_remove1)
  ultimately show ?case by auto
next
  case (3 grid rows cols goal st current st1 st2)
  then have ne: "openq st \<noteq> []" by simp
  have cur_in: "current \<in> (snd \<circ> snd) ` set (openq st)"
    using heappop_in [OF ne] 3 by force
  have sub: "set (openq st1) \<subseteq> set (openq st)"
    using heappop_subset [OF ne] 3 by simp
  have ra: "relax_all grid rows cols goal current moves4
              (st1\<lparr>visited := insert current (visited st1)\<rparr>) = Inr st2"
    using 3 by simp
  have v2: "visited st2 = insert current (visited st)"
    using relax_all_visited [OF ra] 3 by simp
  have q2: "(snd \<circ> snd) ` set (openq st2) \<subseteq> in_grid rows cols \<union> (snd \<circ> snd) ` set (openq st)"
    using relax_all_openq_cells [OF ra] sub by auto
  have "pending rows cols st2 \<subseteq> pending rows cols st - {current}"
    using q2 v2 by (auto simp: pending_def)
  moreover have "current \<in> pending rows cols st"
    using cur_in 3 by (auto simp: pending_def)
  ultimately have "pending rows cols st2 \<subset> pending rows cols st" by blast
  then have "card (pending rows cols st2) < card (pending rows cols st)"
    by (intro psubset_card_mono finite_pending)
  then show ?case by auto
qed

text \<open>
  \<open>astar(grid, start, goal)\<close>. \<open>len(grid[0])\<close> raises IndexError on a grid with no row.
\<close>

definition astar :: "grid \<Rightarrow> cell \<Rightarrow> cell \<Rightarrow> astar_result" where
  "astar grid start goal =
     (case grid of
        [] \<Rightarrow> Some (Inl IndexError)
      | row0 # _ \<Rightarrow>
          astar_loop grid (int (length grid)) (int (length row0)) goal
            \<lparr>openq = heappush [] (heuristic start goal, 0, start),
             came = Map.empty,
             gcost = [start \<mapsto> 0],
             visited = {}\<rparr>)"

section \<open>The navigation simulation of nav\_pygame.py\<close>

text \<open>
  The fields of \<open>NavSim\<close> that the navigation logic reads or writes. \<open>cfg_rows\<close>,
  \<open>cfg_cols\<close> and \<open>cfg_cell\<close> are \<open>self.cfg\<close>; \<open>sim_grid\<close>, \<open>sim_start\<close>,
  \<open>sim_goal\<close> and \<open>sim_path\<close> are \<open>self.grid\<close>, \<open>self.start\<close>, \<open>self.goal\<close> and
  \<open>self.path\<close>. A log line is kept without its wall-clock prefix, \<open>speech_q\<close> is the
  queue that \<open>speak\<close> feeds, and \<open>planned\<close> is an observation that the source does not
  store: the arguments \<open>(start, goal)\<close> of every call to \<open>astar\<close>, in order.
\<close>

record navsim =
  cfg_rows :: int
  cfg_cols :: int
  cfg_cell :: int
  sim_grid :: grid
  sim_start :: cell
  sim_goal :: cell
  dynamic :: "cell set"
  robot_cell :: cell
  robot_pos :: "real \<times> real"
  sim_path :: "cell list"
  path_index :: int
  moving :: bool
  paused :: bool
  returning :: bool
  last_lidar_angle :: int
  detected_cells :: "cell set"
  log_lines :: "string list"
  speech_q :: "string list"
  planned :: "(cell \<times> cell) list"

definition add_log :: "navsim \<Rightarrow> string \<Rightarrow> navsim" where
  "add_log s txt =
     s\<lparr>log_lines := (let l = log_lines s @ [txt] in if length l > 6 then tl l else l)\<rparr>"

definition speak :: "navsim \<Rightarrow> string \<Rightarrow> navsim" where
  "speak s txt = s\<lparr>speech_q := speech_q s @ [txt]\<rparr>"

definition cell_center :: "navsim \<Rightarrow> cell \<Rightarrow> real \<times> real" where
  "cell_center s c =
     (real_of_int (snd c * cfg_cell s + cfg_cell s div 2),
      real_of_int (fst c * cfg_cell s + cfg_cell s div 2))"

text \<open>The position that a Python index denotes in a list of length \<open>n\<close>, if any.\<close>

definition py_index :: "nat \<Rightarrow> int \<Rightarrow> nat option" where
  "py_index n i =
     (if 0 \<le> i \<and> i < int n then Some (nat i)
      else if - int n \<le> i \<and> i < 0 then Some (nat (int n + i))
      else None)"

text \<open>
  \<open>g[r][c] = 1\<close> lands on the position \<open>(i, j)\<close> when both indices are in range;
  otherwise it raises IndexError.
\<close>

definition lands :: "grid \<Rightarrow> cell \<Rightarrow> (nat \<times> nat) option" where
  "lands g c =
     (case py_index (length g) (fst c) of
        None \<Rightarrow> None
      | Some i \<Rightarrow> (case py_index (length (g ! i)) (snd c) of
                     None \<Rightarrow> None
                   | Some j \<Rightarrow> Some (i, j)))"

text \<open>
  \<open>current_grid\<close>: a copy of the static grid with \<open>1\<close> written at every dynamic
  obstacle and at every detected cell that passes the bounds test. Every write stores the
  same value, so the order in which the two sets are walked does not show in the result.
\<close>

definition marks :: "navsim \<Rightarrow> cell set" where
  "marks s = dynamic s \<union>
     {c \<in> detected_cells s. 0 \<le> fst c \<and> fst c < cfg_rows s \<and> 0 \<le> snd c \<and> snd c < cfg_cols s}"

definition current_grid :: "navsim \<Rightarrow> py_error + grid" where
  "current_grid s =
     (if \<exists>c \<in> marks s. lands (sim_grid s) c = None then Inl IndexError
      else Inr (map (\<lambda>i. map (\<lambda>j. if \<exists>c \<in> marks s. lands (sim_grid s) c = Some (i, j) then 1
                                     else sim_grid s ! i ! j)
                           [0..<length (sim_grid s ! i)])
                    [0..<length (sim_grid s)]))"

text \<open>
  \<open>compute_path\<close>, with the call to \<open>astar\<close> recorded in \<open>planned\<close>. The same two
  statements open \<open>start_navigation\<close>.
\<close>

definition compute_path :: "navsim \<Rightarrow> cell \<Rightarrow> cell \<Rightarrow> (py_error + navsim \<times> cell list option) option"
  where
  "compute_path s a b =
     (case current_grid s of
        Inl e \<Rightarrow> Some (Inl e)
      | Inr g \<Rightarrow>
          (case astar g a b of
             None \<Rightarrow> None
           | Some (Inl e) \<Rightarrow> Some (Inl e)
           | Some (Inr r) \<Rightarrow> Some (Inr (s\<lparr>planned := planned s @ [(a, b)]\<rparr>, r))))"

text \<open>Python's truth value of a planner result: \<open>None\<close> and the empty list are false.\<close>

fun truthy :: "cell list option \<Rightarrow> bool" where
  "truthy None = False"
| "truthy (Some []) = False"
| "truthy (Some (c # cs)) = True"

text \<open>
  \<open>start_navigation\<close>. The second component of the result is the path handed to the
  thread that runs \<open>animate_robot\<close>, or \<open>None\<close> when no thread is started. The function
  itself does not write \<open>moving\<close>: the thread does, in \<open>animate_robot\<close>.
\<close>

definition start_navigation :: "navsim \<Rightarrow> (py_error + navsim \<times> cell list option) option" where
  "start_navigation s =
     (if moving s then Some (Inr (add_log s ''Already navigating'', None))
      else
        (case compute_path s (robot_cell s) (sim_goal s) of
           None \<Rightarrow> None
         | Some (Inl e) \<Rightarrow> Some (Inl e)
         | Some (Inr (s1, r)) \<Rightarrow>
             if \<not> truthy r
             then Some (Inr (speak (add_log s1 ''No initial path found.'') ''No initial path found.'',
                             None))
             else Some (Inr (s1, r))))"

fun digits :: "nat \<Rightarrow> string" where
  "digits n = (if n < 10 then [char_of (48 + n)] else digits (n div 10) @ [char_of (48 + n mod 10)])"

text \<open>The statements of \<open>animate_robot\<close> before its loop.\<close>

definition animate_robot_begin :: "cell list \<Rightarrow> navsim \<Rightarrow> navsim" where
  "animate_robot_begin pth s =
     (if pth = [] then (speak (add_log s ''No path found.'') ''No path found.'')\<lparr>moving := False\<rparr>
      else
        (speak (add_log s (''Path found ('' @ digits (length pth) @ '' steps). Starting navigation.''))
               ''Starting navigation to pharmacy.'')
          \<lparr>moving := True, returning := False, sim_path := pth, path_index := 0\<rparr>)"

text \<open>
  The replanning of \<open>animate_robot\<close>, entered when the next cell of the path is blocked:
  the destination is \<open>self.start\<close> when returning and \<open>self.goal\<close> otherwise.
\<close>

definition replan :: "navsim \<Rightarrow> (py_error + navsim) option" where
  "replan s =
     (let s2 = speak (add_log s ''Obstacle detected on path. Replanning...'')
                     ''Obstacle detected on path. Recalculating route.'';
          goalcell = (if returning s2 then sim_start s2 else sim_goal s2)
      in case compute_path s2 (robot_cell s2) goalcell of
           None \<Rightarrow> None
         | Some (Inl e) \<Rightarrow> Some (Inl e)
         | Some (Inr (s3, r)) \<Rightarrow>
             (case r of
                Some (c # cs) \<Rightarrow>
                  Some (Inr (add_log (s3\<lparr>sim_path := c # cs, path_index := 0\<rparr>)
                                     ''New path found, resuming.''))
              | _ \<Rightarrow>
                  Some (Inr ((speak (add_log s3 ''No alternative path found.'')
                                    ''No alternative path found. Aborting navigation.'')
                               \<lparr>moving := False\<rparr>))))"

text \<open>
  The branch \<open>if dist < 4\<close> of the loop of \<open>animate_robot\<close>: the robot arrives at
  \<open>target = self.path[self.path_index]\<close>, and replans when the cell after it is a dynamic
  obstacle, a wall or a detected cell (\<open>or\<close> evaluates left to right and stops early).
\<close>

definition arrive :: "navsim \<Rightarrow> (py_error + navsim) option" where
  "arrive s =
     (case py_get (sim_path s) (path_index s) of
        Inl e \<Rightarrow> Some (Inl e)
      | Inr tgt \<Rightarrow>
          let s1 = s\<lparr>robot_cell := tgt, robot_pos := cell_center s tgt,
                     path_index := path_index s + 1\<rparr>
          in
          if path_index s1 < int (length (sim_path s1)) then
            (case py_get (sim_path s1) (path_index s1) of
               Inl e \<Rightarrow> Some (Inl e)
             | Inr nxt \<Rightarrow>
                 if nxt \<in> dynamic s1 then replan s1
                 else
                   (case grid_at (sim_grid s1) (fst nxt) (snd nxt) of
                      Inl e \<Rightarrow> Some (Inl e)
                    | Inr v \<Rightarrow>
                        if v = 1 \<or> nxt \<in> detected_cells s1 then replan s1
                        else Some (Inr s1)))
          else Some (Inr s1))"

text \<open>
  \<open>move_dynamic\<close>. The random numbers are an input: for the obstacle at cell \<open>c\<close>,
  \<open>fst (draw c)\<close> tells whether \<open>random.random() < 0.6\<close> came out true and
  \<open>snd (draw c)\<close> is the shuffled list of directions. A candidate is tested against
  \<open>self.dynamic\<close>, the set as it was when the call began; the moved obstacles are
  collected in \<open>newset\<close>, a set.
\<close>

fun try_dirs :: "navsim \<Rightarrow> cell \<Rightarrow> (int \<times> int) list \<Rightarrow> py_error + cell option" where
  "try_dirs s c [] = Inr None"
| "try_dirs s c (d # ds) =
     (let nr = fst c + fst d; nc = snd c + snd d in
      if 0 \<le> nr \<and> nr < cfg_rows s \<and> 0 \<le> nc \<and> nc < cfg_cols s then
        (case grid_at (sim_grid s) nr nc of
           Inl e \<Rightarrow> Inl e
         | Inr v \<Rightarrow>
             if v = 0 \<and> (nr, nc) \<notin> dynamic s \<and> (nr, nc) \<noteq> sim_start s \<and> (nr, nc) \<noteq> sim_goal s
             then Inr (Some (nr, nc))
             else try_dirs s c ds)
      else try_dirs s c ds)"

definition move_one :: "navsim \<Rightarrow> bool \<times> (int \<times> int) list \<Rightarrow> cell \<Rightarrow> py_error + cell" where
  "move_one s dr c =
     (if fst dr then
        (case try_dirs s c (snd dr) of
           Inl e \<Rightarrow> Inl e
         | Inr None \<Rightarrow> Inr c
         | Inr (Some n) \<Rightarrow> Inr n)
      else Inr c)"

definition move_dynamic :: "navsim \<Rightarrow> (cell \<Rightarrow> bool \<times> (int \<times> int) list) \<Rightarrow> py_error + navsim" where
  "move_dynamic s draw =
     (if \<exists>c \<in> dynamic s. isl (move_one s (draw c) c) then Inl IndexError
      else Inr (s\<lparr>dynamic := (\<lambda>c. projr (move_one s (draw c) c)) ` dynamic s\<rparr>))"

text \<open>
  \<open>lidar_scan\<close>. The cell \<open>(rr, cc)\<close> that a beam covers at step \<open>d\<close> is computed in
  the source with floating-point sine, cosine and floor division from \<open>robot_pos\<close>; that
  arithmetic is an input here: \<open>cast a d\<close> is the cell for the beam at \<open>a\<close> degrees
  (sweep offset included) and step \<open>d\<close>. One beam walks the steps \<open>1 .. 5\<close>
  (\<open>LIDAR_RANGE_CELLS = 5\<close>), records an end point for every step inside the grid, stops
  with a hit at an occupied cell and stops without one when it leaves the grid.
\<close>

type_synonym sensor = "(real \<times> real) \<times> (int \<times> int)"

fun beam :: "navsim \<Rightarrow> (int \<Rightarrow> cell) \<Rightarrow> int list \<Rightarrow> py_error + sensor list \<times> cell option" where
  "beam s cell_at [] = Inr ([], None)"
| "beam s cell_at (d # ds) =
     (let rr = fst (cell_at d); cc = snd (cell_at d) in
      if 0 \<le> rr \<and> rr < cfg_rows s \<and> 0 \<le> cc \<and> cc < cfg_cols s then
        (let sensor = (robot_pos s, (cc * cfg_cell s + cfg_cell s div 2,
                                      rr * cfg_cell s + cfg_cell s div 2)) in
         case grid_at (sim_grid s) rr cc of
           Inl e \<Rightarrow> Inl e
         | Inr v \<Rightarrow>
             if v = 1 \<or> (rr, cc) \<in> dynamic s then Inr ([sensor], Some (rr, cc))
             else (case beam s cell_at ds of
                     Inl e \<Rightarrow> Inl e
                   | Inr (sensors, hit) \<Rightarrow> Inr (sensor # sensors, hit)))
      else Inr ([], None))"

definition lidar_steps :: "int list" where
  "lidar_steps = [1, 2, 3, 4, 5]"

definition lidar_angles :: "int list" where
  "lidar_angles = map (\<lambda>k. 6 * int k) [0..<60]"

fun sweep :: "navsim \<Rightarrow> (int \<Rightarrow> int \<Rightarrow> cell) \<Rightarrow> int list \<Rightarrow> py_error + sensor list \<times> cell set"
  where
  "sweep s cast [] = Inr ([], {})"
| "sweep s cast (angle_deg # rest) =
     (case beam s (cast (angle_deg + last_lidar_angle s)) lidar_steps of
        Inl e \<Rightarrow> Inl e
      | Inr (sensors, hit) \<Rightarrow>
          (case sweep s cast rest of
             Inl e \<Rightarrow> Inl e
           | Inr (sensors', detected) \<Rightarrow>
               Inr (sensors @ sensors',
                    (case hit of None \<Rightarrow> detected | Some c \<Rightarrow> insert c detected))))"

definition lidar_scan :: "navsim \<Rightarrow> (int \<Rightarrow> int \<Rightarrow> cell) \<Rightarrow> py_error + navsim \<times> sensor list \<times> cell set"
  where
  "lidar_scan s cast =
     (case sweep s cast lidar_angles of
        Inl e \<Rightarrow> Inl e
      | Inr (sensors, detected) \<Rightarrow>
          Inr (s\<lparr>last_lidar_angle := (last_lidar_angle s + 6) mod 360,
                 detected_cells := detected\<rparr>,
               sensors, detected))"





text \<open>A small simulation on a 2 x 3 grid with one wall, used to run the model.\<close>

definition demo_sim :: navsim where
  "demo_sim = \<lparr>cfg_rows = 2, cfg_cols = 3, cfg_cell = 36, sim_grid = [[0, 0, 0], [0, 1, 0]],
     sim_start = (1, 0), sim_goal = (1, 2), dynamic = {}, robot_cell = (1, 0),
     robot_pos = (18, 54), sim_path = [], path_index = 0, moving = False, paused = False,
     returning = False, last_lidar_angle = 0, detected_cells = {}, log_lines = [],
     speech_q = [], planned = []\<rparr>"



section \<open>The A* planner of app.py\<close>

text \<open>
  \<open>a_star(start, goal, w, h, obstacles)\<close> keeps the open cells in a Python set and takes
  \<open>min(open_set, key=...)\<close>. Which of several cells of least \<open>f\<close> the call returns is
  decided by the iteration order of the set; that order is an input of the model:
  \<open>pick k M\<close> is the cell returned in round \<open>k\<close> when \<open>M\<close> is the set of open cells of
  least key.
\<close>

record a_state =
  open_set :: "cell set"
  came_from :: "cell \<rightharpoonup> cell"
  g_score :: "cell \<rightharpoonup> int"
  f_score :: "cell \<rightharpoonup> int"

text \<open>\<open>neighbors(pt, w, h)\<close>: the moves that stay inside \<open>0 <= x < w\<close>, \<open>0 <= y < h\<close>.\<close>

definition neighbors :: "cell \<Rightarrow> int \<Rightarrow> int \<Rightarrow> cell list" where
  "neighbors pt w h =
     filter (\<lambda>n. 0 \<le> fst n \<and> fst n < w \<and> 0 \<le> snd n \<and> snd n < h)
       (map (\<lambda>d. (fst pt + fst d, snd pt + snd d)) [(1, 0), (-1, 0), (0, 1), (0, -1)])"

text \<open>\<open>x < m.get(n, float('inf'))\<close> and the order of the keys \<open>f.get(n, float('inf'))\<close>.\<close>

definition below :: "int \<Rightarrow> int option \<Rightarrow> bool" where
  "below x y = (case y of None \<Rightarrow> True | Some v \<Rightarrow> x < v)"

definition key_le :: "int option \<Rightarrow> int option \<Rightarrow> bool" where
  "key_le a b = (case b of None \<Rightarrow> True | Some y \<Rightarrow> (case a of None \<Rightarrow> False | Some x \<Rightarrow> x \<le> y))"

definition least_f :: "a_state \<Rightarrow> cell set" where
  "least_f st = {n \<in> open_set st. \<forall>m \<in> open_set st. key_le (f_score st n) (f_score st m)}"

text \<open>The body of \<open>for nb in neighbors(...)\<close> for one neighbour.\<close>

definition improve :: "cell set \<Rightarrow> cell \<Rightarrow> cell \<Rightarrow> cell \<Rightarrow> a_state \<Rightarrow> py_error + a_state" where
  "improve obstacles goal current nb st =
     (if nb \<in> obstacles then Inr st
      else
        (case g_score st current of
           None \<Rightarrow> Inl KeyError
         | Some gc \<Rightarrow>
             let tentative_g = gc + 1 in
             if below tentative_g (g_score st nb)
             then Inr (st\<lparr>came_from := (came_from st)(nb \<mapsto> current),
                          g_score := (g_score st)(nb \<mapsto> tentative_g),
                          f_score := (f_score st)(nb \<mapsto> tentative_g + heuristic nb goal),
                          open_set := insert nb (open_set st)\<rparr>)
             else Inr st))"

fun improve_all :: "cell set \<Rightarrow> cell \<Rightarrow> cell \<Rightarrow> cell list \<Rightarrow> a_state \<Rightarrow> py_error + a_state" where
  "improve_all obstacles goal current [] st = Inr st"
| "improve_all obstacles goal current (nb # nbs) st =
     (case improve obstacles goal current nb st of
        Inl e \<Rightarrow> Inl e
      | Inr st' \<Rightarrow> improve_all obstacles goal current nbs st')"

text \<open>
  The \<open>while open_set\<close> loop; \<open>None\<close> stands for a run that does not return.
  \<open>open_set.remove(current)\<close> raises KeyError when the cell is not in the set.
\<close>

partial_function (option) a_star_loop ::
  "(nat \<Rightarrow> cell set \<Rightarrow> cell) \<Rightarrow> int \<Rightarrow> int \<Rightarrow> cell set \<Rightarrow> cell \<Rightarrow> nat \<Rightarrow> a_state
     \<Rightarrow> (py_error + cell list) option" where
  "a_star_loop pick w h obstacles goal k st =
     (if open_set st = {} then Some (Inr [])
      else
        let current = pick k (least_f st) in
        if current = goal then
          map_option (\<lambda>p. Inr (rev p)) (reconstruct (came_from st) current [current])
        else if current \<notin> open_set st then Some (Inl KeyError)
        else
          (case improve_all obstacles goal current (neighbors current w h)
                  (st\<lparr>open_set := open_set st - {current}\<rparr>) of
             Inl e \<Rightarrow> Some (Inl e)
           | Inr st' \<Rightarrow> a_star_loop pick w h obstacles goal (Suc k) st'))"

declare a_star_loop.simps [code]

definition a_star ::
  "(nat \<Rightarrow> cell set \<Rightarrow> cell) \<Rightarrow> cell \<Rightarrow> cell \<Rightarrow> int \<Rightarrow> int \<Rightarrow> cell set \<Rightarrow> (py_error + cell list) option"
  where
  "a_star pick start goal w h obstacles =
     a_star_loop pick w h obstacles goal 0
       \<lparr>open_set = {start}, came_from = Map.empty, g_score = [start \<mapsto> 0],
        f_score = [start \<mapsto> heuristic start goal]\<rparr>"

section \<open>Paths found by astar\<close>

text \<open>
  The planner moves over the cells that pass its test \<open>0<=nr<rows and 0<=nc<cols and
  grid[nr][nc]==0\<close>: \<open>free\<close>. A \<open>route\<close> is a list of cells from the start to the
  goal in which each cell is one move from the one before and every cell after the first
  is free.
\<close>

definition free :: "grid \<Rightarrow> cell \<Rightarrow> bool" where
  "free grid c \<longleftrightarrow>
     0 \<le> fst c \<and> fst c < int (length grid) \<and> 0 \<le> snd c \<and> snd c < int (length (hd grid)) \<and>
     grid_at grid (fst c) (snd c) = Inr 0"

definition adjacent :: "cell \<Rightarrow> cell \<Rightarrow> bool" where
  "adjacent a b \<longleftrightarrow> (fst b - fst a, snd b - snd a) \<in> set moves4"

text \<open>
  The invariant of \<open>came\<close> and \<open>g\<close>: the start has cost \<open>0\<close> and no parent, every
  other cell with a cost has a parent, and a parent is one move away from its child, which
  is free, and has a strictly smaller cost. Following \<open>came\<close> therefore ends at the
  start.
\<close>

definition tree_inv :: "grid \<Rightarrow> cell \<Rightarrow> astar_state \<Rightarrow> bool" where
  "tree_inv grid start st \<longleftrightarrow>
     gcost st start = Some 0 \<and> came st start = None \<and>
     (\<forall>n gn. gcost st n = Some gn \<longrightarrow> 0 \<le> gn \<and> (n = start \<or> came st n \<noteq> None)) \<and>
     (\<forall>n p. came st n = Some p \<longrightarrow>
        adjacent p n \<and> free grid n \<and>
        (\<exists>gn gp. gcost st n = Some gn \<and> gcost st p = Some gp \<and> gp < gn)) \<and>
     (\<forall>e \<in> set (openq st). gcost st (snd (snd e)) \<noteq> None)"

lemma relax_cases:
  assumes "relax grid rows cols goal cur d st = Inr st'"
  obtains (same) "st' = st"
  | (upd) gc where "gcost st cur = Some gc"
      "0 \<le> fst cur + fst d" "fst cur + fst d < rows" "0 \<le> snd cur + snd d" "snd cur + snd d < cols"
      "grid_at grid (fst cur + fst d) (snd cur + snd d) = Inr 0"
      "gc + 1 < (case gcost st (fst cur + fst d, snd cur + snd d) of None \<Rightarrow> 1000000000 | Some x \<Rightarrow> x)"
      "st' = st\<lparr>came := (came st)((fst cur + fst d, snd cur + snd d) \<mapsto> cur),
                gcost := (gcost st)((fst cur + fst d, snd cur + snd d) \<mapsto> gc + 1),
                openq := heappush (openq st)
                  (gc + 1 + heuristic (fst cur + fst d, snd cur + snd d) goal, gc + 1,
                   (fst cur + fst d, snd cur + snd d))\<rparr>"
proof -
  define nb where "nb = (fst cur + fst d, snd cur + snd d)"
  define inb where "inb \<longleftrightarrow> 0 \<le> fst nb \<and> fst nb < rows \<and> 0 \<le> snd nb \<and> snd nb < cols"
  define old where "old = (case gcost st nb of None \<Rightarrow> 1000000000 | Some x \<Rightarrow> x)"
  have eq: "relax grid rows cols goal cur d st =
     (if inb then
        (case grid_at grid (fst nb) (snd nb) of
           Inl e \<Rightarrow> Inl e
         | Inr v \<Rightarrow>
             if v = 0 then
               (case gcost st cur of
                  None \<Rightarrow> Inl KeyError
                | Some gc \<Rightarrow>
                    if gc + 1 < old
                    then Inr (st\<lparr>came := (came st)(nb \<mapsto> cur),
                                 gcost := (gcost st)(nb \<mapsto> gc + 1),
                                 openq := heappush (openq st) (gc + 1 + heuristic nb goal, gc + 1, nb)\<rparr>)
                    else Inr st)
             else Inr st)
      else Inr st)"
    unfolding relax_def Let_def inb_def nb_def old_def fst_conv snd_conv ..
  note r = assms [unfolded eq]
  show thesis
  proof (cases inb)
    case False
    then have "st' = st" using r by simp
    then show ?thesis by (rule same)
  next
    case inb: True
    show ?thesis
    proof (cases "grid_at grid (fst nb) (snd nb)")
      case (Inl e)
      then show ?thesis using r inb by simp
    next
      case (Inr v)
      show ?thesis
      proof (cases "v = 0")
        case False
        then have "st' = st" using r inb Inr by simp
        then show ?thesis by (rule same)
      next
        case v0: True
        show ?thesis
        proof (cases "gcost st cur")
          case None
          then show ?thesis using r inb Inr v0 by simp
        next
          case (Some gc)
          show ?thesis
          proof (cases "gc + 1 < old")
            case False
            then have "st' = st" using r inb Inr v0 Some by simp
            then show ?thesis by (rule same)
          next
            case True
            have "st' = st\<lparr>came := (came st)(nb \<mapsto> cur),
                gcost := (gcost st)(nb \<mapsto> gc + 1),
                openq := heappush (openq st) (gc + 1 + heuristic nb goal, gc + 1, nb)\<rparr>"
              using r inb Inr v0 Some True by simp
            then show ?thesis
              using Some inb Inr v0 True
              unfolding nb_def inb_def old_def fst_conv snd_conv
              by (intro upd [of gc]) simp_all
          qed
        qed
      qed
    qed
  qed
qed

lemma tree_inv_start: "tree_inv grid start st \<Longrightarrow> gcost st start = Some 0"
  by (simp add: tree_inv_def)

lemma tree_inv_came_start: "tree_inv grid start st \<Longrightarrow> came st start = None"
  by (simp add: tree_inv_def)

lemma tree_inv_nonneg: "tree_inv grid start st \<Longrightarrow> gcost st n = Some gn \<Longrightarrow> 0 \<le> gn"
  unfolding tree_inv_def by blast

lemma tree_inv_root: "tree_inv grid start st \<Longrightarrow> gcost st n = Some gn \<Longrightarrow> n \<noteq> start \<Longrightarrow> came st n \<noteq> None"
  unfolding tree_inv_def by blast

lemma tree_inv_came:
  "tree_inv grid start st \<Longrightarrow> came st n = Some p \<Longrightarrow>
   adjacent p n \<and> free grid n \<and> (\<exists>gn gp. gcost st n = Some gn \<and> gcost st p = Some gp \<and> gp < gn)"
  unfolding tree_inv_def by blast

lemma tree_inv_openq: "tree_inv grid start st \<Longrightarrow> e \<in> set (openq st) \<Longrightarrow> gcost st (snd (snd e)) \<noteq> None"
  unfolding tree_inv_def by blast

lemma relax_tree_inv:
  assumes inv: "tree_inv grid start st"
    and r: "relax grid (int (length grid)) (int (length (hd grid))) goal cur d st = Inr st'"
    and d: "d \<in> set moves4"
  shows "tree_inv grid start st'"
  using r
proof (cases rule: relax_cases)
  case same
  then show ?thesis using inv by simp
next
  case (upd gc)
  define nb where "nb = (fst cur + fst d, snd cur + snd d)"
  note upd = upd [folded nb_def]
  have gc0: "0 \<le> gc" using tree_inv_nonneg [OF inv upd(1)] .
  have s0: "gcost st start = Some 0" using inv by (rule tree_inv_start)
  have nb_start: "nb \<noteq> start" using upd(7) s0 gc0 by auto
  have adj: "adjacent cur nb" using d by (simp add: adjacent_def nb_def)
  have cur_nb: "cur \<noteq> nb" using d by (auto simp: nb_def moves4_def prod_eq_iff)
  have fr: "free grid nb" using upd(2-6) by (simp add: free_def nb_def)
  have less: "\<And>x. gcost st nb = Some x \<Longrightarrow> gc + 1 < x" using upd(7) by simp
  have cm: "came st' = (came st)(nb \<mapsto> cur)" and gm: "gcost st' = (gcost st)(nb \<mapsto> gc + 1)"
    and oq: "set (openq st') = insert (gc + 1 + heuristic nb goal, gc + 1, nb) (set (openq st))"
    using upd(8) by (simp_all add: heappush_def)
  show ?thesis
    unfolding tree_inv_def
  proof (intro conjI allI impI ballI)
    show "gcost st' start = Some 0" using s0 nb_start gm by simp
    show "came st' start = None" using tree_inv_came_start [OF inv] nb_start cm by simp
  next
    fix n gn assume a: "gcost st' n = Some gn"
    show "0 \<le> gn"
    proof (cases "n = nb")
      case True then show ?thesis using a gm gc0 by simp
    next
      case False then show ?thesis using a gm tree_inv_nonneg [OF inv, of n gn] by simp
    qed
    show "n = start \<or> came st' n \<noteq> None"
    proof (cases "n = nb")
      case True then show ?thesis using cm by simp
    next
      case False then show ?thesis using a gm cm tree_inv_root [OF inv, of n gn] by auto
    qed
  next
    fix n p assume c: "came st' n = Some p"
    show "adjacent p n"
    proof (cases "n = nb")
      case True then show ?thesis using c cm adj by simp
    next
      case False then show ?thesis using c cm tree_inv_came [OF inv, of n p] by simp
    qed
    show "free grid n"
    proof (cases "n = nb")
      case True then show ?thesis using fr by simp
    next
      case False then show ?thesis using c cm tree_inv_came [OF inv, of n p] by simp
    qed
    show "\<exists>gn gp. gcost st' n = Some gn \<and> gcost st' p = Some gp \<and> gp < gn"
    proof (cases "n = nb")
      case True
      then have "p = cur" using c cm by simp
      then show ?thesis using True upd(1) gm cur_nb by simp
    next
      case False
      then have "came st n = Some p" using c cm by simp
      then obtain gn gp where g: "gcost st n = Some gn" "gcost st p = Some gp" "gp < gn"
        using tree_inv_came [OF inv] by blast
      show ?thesis
      proof (cases "p = nb")
        case True
        then show ?thesis using g less [of gp] False gm by auto
      next
        case False
        then show ?thesis using g \<open>n \<noteq> nb\<close> gm by auto
      qed
    qed
  next
    fix e assume "e \<in> set (openq st')"
    then show "gcost st' (snd (snd e)) \<noteq> None"
      using tree_inv_openq [OF inv, of e] oq gm by auto
  qed
qed


text \<open>
  The cell popped in a round, the state after the pop and the state handed to the
  relaxation, named for the proofs; \<open>astar_loop_rule\<close> is the proof rule of the loop for
  an invariant \<open>I\<close>.
\<close>

definition least_cell :: "astar_state \<Rightarrow> cell" where
  "least_cell st = snd (snd (fst (heappop (openq st))))"

definition popped :: "astar_state \<Rightarrow> astar_state" where
  "popped st = st\<lparr>openq := snd (heappop (openq st))\<rparr>"

definition expand_in :: "astar_state \<Rightarrow> astar_state" where
  "expand_in st = (popped st)\<lparr>visited := insert (least_cell st) (visited st)\<rparr>"

lemma astar_loop_unfold:
  "astar_loop grid rows cols goal st =
     (if openq st = [] then Some (Inr None)
      else if least_cell st = goal then
        map_option (\<lambda>p. Inr (Some (rev p))) (reconstruct (came st) goal [goal])
      else if least_cell st \<in> visited st then astar_loop grid rows cols goal (popped st)
      else (case relax_all grid rows cols goal (least_cell st) moves4 (expand_in st) of
              Inl e \<Rightarrow> Some (Inl e)
            | Inr st2 \<Rightarrow> astar_loop grid rows cols goal st2))"
  by (subst astar_loop.simps) (simp add: Let_def least_cell_def popped_def expand_in_def)

lemma astar_loop_rule:
  assumes I0: "I st0"
    and skip: "\<And>st. I st \<Longrightarrow> openq st \<noteq> [] \<Longrightarrow> least_cell st \<noteq> goal \<Longrightarrow> least_cell st \<in> visited st \<Longrightarrow> I (popped st)"
    and expand: "\<And>st st2. I st \<Longrightarrow> openq st \<noteq> [] \<Longrightarrow> least_cell st \<noteq> goal \<Longrightarrow> least_cell st \<notin> visited st \<Longrightarrow>
        relax_all grid rows cols goal (least_cell st) moves4 (expand_in st) = Inr st2 \<Longrightarrow> I st2"
    and empty: "\<And>st. I st \<Longrightarrow> openq st = [] \<Longrightarrow> P (Some (Inr None))"
    and found: "\<And>st. I st \<Longrightarrow> openq st \<noteq> [] \<Longrightarrow> least_cell st = goal \<Longrightarrow>
        P (map_option (\<lambda>p. Inr (Some (rev p))) (reconstruct (came st) goal [goal]))"
    and raised: "\<And>st e. I st \<Longrightarrow> openq st \<noteq> [] \<Longrightarrow> least_cell st \<noteq> goal \<Longrightarrow> least_cell st \<notin> visited st \<Longrightarrow>
        relax_all grid rows cols goal (least_cell st) moves4 (expand_in st) = Inl e \<Longrightarrow> P (Some (Inl e))"
  shows "P (astar_loop grid rows cols goal st0)"
proof -
  have "I st \<Longrightarrow> g = grid \<Longrightarrow> r = rows \<Longrightarrow> c = cols \<Longrightarrow> gl = goal \<Longrightarrow> P (astar_loop g r c gl st)"
    for g r c gl st
  proof (induction g r c gl st rule: astar_loop.induct)
    case (1 g r c gl st)
    note eqs = \<open>g = grid\<close> \<open>r = rows\<close> \<open>c = cols\<close> \<open>gl = goal\<close>
    show ?case
    proof (cases "openq st = []")
      case True
      then show ?thesis using empty [OF "1.prems"(1)] by (subst astar_loop_unfold) simp
    next
      case ne: False
      show ?thesis
      proof (cases "least_cell st = goal")
        case True
        then show ?thesis using found [OF "1.prems"(1) ne] ne eqs
          by (subst astar_loop_unfold) simp
      next
        case ng: False
        show ?thesis
        proof (cases "least_cell st \<in> visited st")
          case True
          have "P (astar_loop g r c gl (popped st))"
          proof (rule "1.IH"(1) [OF ne _ _ _ _ _ eqs])
            show "least_cell st = snd (snd (fst (heappop (openq st))))" by (simp add: least_cell_def)
            show "popped st = st\<lparr>openq := snd (heappop (openq st))\<rparr>" by (simp add: popped_def)
            show "least_cell st \<noteq> gl" using ng eqs by simp
            show "least_cell st \<in> visited (popped st)" using True by (simp add: popped_def)
            show "I (popped st)" using skip [OF "1.prems"(1) ne ng True] .
          qed
          then show ?thesis using ne ng True eqs by (subst astar_loop_unfold) simp
        next
          case nv: False
          show ?thesis
          proof (cases "relax_all grid rows cols goal (least_cell st) moves4 (expand_in st)")
            case (Inl e)
            then show ?thesis using raised [OF "1.prems"(1) ne ng nv Inl] ne ng nv eqs
              by (subst astar_loop_unfold) simp
          next
            case (Inr st2)
            have "P (astar_loop g r c gl st2)"
            proof (rule "1.IH"(2) [OF ne _ _ _ _ _ _ eqs])
              show "least_cell st = snd (snd (fst (heappop (openq st))))" by (simp add: least_cell_def)
              show "popped st = st\<lparr>openq := snd (heappop (openq st))\<rparr>" by (simp add: popped_def)
              show "least_cell st \<noteq> gl" using ng eqs by simp
              show "least_cell st \<notin> visited (popped st)" using nv by (simp add: popped_def)
              show "relax_all g r c gl (least_cell st) moves4
                      ((popped st)\<lparr>visited := insert (least_cell st) (visited (popped st))\<rparr>) = Inr st2"
                using Inr eqs by (simp add: expand_in_def popped_def)
              show "I st2" using expand [OF "1.prems"(1) ne ng nv Inr] .
            qed
            then show ?thesis using ne ng nv Inr eqs by (subst astar_loop_unfold) simp
          qed
        qed
      qed
    qed
  qed
  from this [OF I0 refl refl refl refl] show ?thesis .
qed


lemma relax_all_tree_inv:
  assumes "tree_inv grid start st"
    and "relax_all grid (int (length grid)) (int (length (hd grid))) goal cur ds st = Inr st'"
    and "set ds \<subseteq> set moves4"
  shows "tree_inv grid start st'"
  using assms
proof (induction ds arbitrary: st)
  case Nil
  then show ?case by simp
next
  case (Cons d ds)
  from Cons.prems(2) obtain st1 where
    r: "relax grid (int (length grid)) (int (length (hd grid))) goal cur d st = Inr st1" and
    ra: "relax_all grid (int (length grid)) (int (length (hd grid))) goal cur ds st1 = Inr st'"
    by (auto split: sum.splits)
  have "tree_inv grid start st1"
    using relax_tree_inv [OF Cons.prems(1) r] Cons.prems(3) by simp
  then show ?case using Cons.IH [OF _ ra] Cons.prems(3) by simp
qed

lemma top_in_openq: "openq st \<noteq> [] \<Longrightarrow> \<exists>f c. (f, c, least_cell st) \<in> set (openq st)"
  using heappop_in [of "openq st"] unfolding least_cell_def
  by (metis prod.collapse)

lemma openq_popped: "openq st \<noteq> [] \<Longrightarrow> set (openq (popped st)) \<subseteq> set (openq st)"
  by (simp add: popped_def heappop_subset)

lemma tree_inv_popped:
  assumes "tree_inv grid start st" "openq st \<noteq> []"
  shows "tree_inv grid start (popped st)"
  using assms(1) openq_popped [OF assms(2)]
  unfolding tree_inv_def popped_def by auto

lemma tree_inv_expand_in:
  assumes "tree_inv grid start st" "openq st \<noteq> []"
  shows "tree_inv grid start (expand_in st)"
  using tree_inv_popped [OF assms]
  unfolding tree_inv_def expand_in_def by simp

lemma tree_inv_top:
  assumes "tree_inv grid start st" "openq st \<noteq> []"
  shows "\<exists>gn. gcost st (least_cell st) = Some gn"
proof -
  obtain f c where "(f, c, least_cell st) \<in> set (openq st)" using top_in_openq [OF assms(2)] by blast
  then show ?thesis using tree_inv_openq [OF assms(1)] by fastforce
qed

lemma reconstruct_tree:
  assumes inv: "tree_inv grid start st" and g: "gcost st n = Some gn"
  shows "\<exists>ps. reconstruct (came st) n (acc @ [n]) = Some (acc @ n # ps) \<and>
           successively (\<lambda>a b. adjacent b a) (n # ps) \<and> last (n # ps) = start \<and>
           (\<forall>c \<in> set (butlast (n # ps)). free grid c) \<and> int (length ps) \<le> gn"
  using g
proof (induction "nat gn" arbitrary: n gn acc rule: less_induct)
  case less
  have gn0: "0 \<le> gn" using tree_inv_nonneg [OF inv less.prems] .
  show ?case
  proof (cases "came st n")
    case None
    then have "n = start" using tree_inv_root [OF inv less.prems] by blast
    moreover have "reconstruct (came st) n (acc @ [n]) = Some (acc @ [n])"
      using None by (subst reconstruct.simps) simp
    ultimately show ?thesis using gn0 by (intro exI [of _ "[]"]) simp
  next
    case (Some p)
    from tree_inv_came [OF inv Some] obtain gp where
      adj: "adjacent p n" and fr: "free grid n" and gp: "gcost st p = Some gp" and lt: "gp < gn"
      using less.prems by auto
    have gp0: "0 \<le> gp" using tree_inv_nonneg [OF inv gp] .
    have "nat gp < nat gn" using lt gp0 by simp
    from less.hyps [OF this gp, of "acc @ [n]"] obtain ps where
      rec: "reconstruct (came st) p ((acc @ [n]) @ [p]) = Some ((acc @ [n]) @ p # ps)" and
      suc: "successively (\<lambda>a b. adjacent b a) (p # ps)" and la: "last (p # ps) = start" and
      frs: "\<forall>c \<in> set (butlast (p # ps)). free grid c" and len: "int (length ps) \<le> gp"
      by blast
    have "reconstruct (came st) n (acc @ [n]) = Some (acc @ n # p # ps)"
      using Some rec by (subst reconstruct.simps) simp
    moreover have "successively (\<lambda>a b. adjacent b a) (n # p # ps)" using adj suc by simp
    moreover have "last (n # p # ps) = start" using la by simp
    moreover have "\<forall>c \<in> set (butlast (n # p # ps)). free grid c" using fr frs by simp
    moreover have "int (length (p # ps)) \<le> gn" using len lt by simp
    ultimately show ?thesis by (intro exI [of _ "p # ps"]) blast
  qed
qed

definition route :: "grid \<Rightarrow> cell \<Rightarrow> cell \<Rightarrow> cell list \<Rightarrow> bool" where
  "route grid start goal p \<longleftrightarrow>
     p \<noteq> [] \<and> hd p = start \<and> last p = goal \<and> successively adjacent p \<and>
     (\<forall>c \<in> set (tl p). free grid c)"

lemma reconstruct_route:
  assumes inv: "tree_inv grid start st" and g: "gcost st goal = Some gn"
  shows "\<exists>p. reconstruct (came st) goal [goal] = Some p \<and> route grid start goal (rev p) \<and>
           int (length p) \<le> gn + 1"
proof -
  from reconstruct_tree [OF inv g, of "[]"] obtain ps where
    rec: "reconstruct (came st) goal [goal] = Some (goal # ps)" and
    suc: "successively (\<lambda>a b. adjacent b a) (goal # ps)" and la: "last (goal # ps) = start" and
    frs: "\<forall>c \<in> set (butlast (goal # ps)). free grid c" and len: "int (length ps) \<le> gn"
    by auto
  let ?p = "goal # ps"
  have "hd (rev ?p) = last ?p" by (rule hd_rev)
  then have "hd (rev ?p) = start" using la by (simp only:)
  moreover have "last (rev ?p) = goal" by simp
  moreover have "successively adjacent (rev ?p)" using suc by (simp only: successively_rev)
  moreover have "tl (rev ?p) = rev (butlast ?p)" by (metis butlast_rev rev_swap)
  then have "\<forall>c \<in> set (tl (rev ?p)). free grid c" using frs by (simp del: butlast.simps)
  ultimately have "route grid start goal (rev ?p)" by (simp add: route_def)
  then show ?thesis using rec len by auto
qed

lemma astar_loop_sound:
  assumes inv: "tree_inv grid start st"
    and res: "astar_loop grid (int (length grid)) (int (length (hd grid))) goal st = Some (Inr (Some p))"
  shows "route grid start goal p"
proof -
  let ?P = "\<lambda>r. \<forall>p. r = Some (Inr (Some p)) \<longrightarrow> route grid start goal p"
  have "?P (astar_loop grid (int (length grid)) (int (length (hd grid))) goal st)"
  proof (rule astar_loop_rule [where I = "tree_inv grid start"], goal_cases)
    case 1 show ?case by (rule inv)
  next
    case (2 st) then show ?case by (simp add: tree_inv_popped)
  next
    case (3 st st2)
    show ?case by (rule relax_all_tree_inv [OF tree_inv_expand_in [OF 3(1,2)] 3(5)]) simp
  next
    case (4 st) show ?case by simp
  next
    case (5 st)
    from tree_inv_top [OF 5(1,2)] 5(3) obtain gn where "gcost st goal = Some gn" by auto
    from reconstruct_route [OF 5(1) this] show ?case by auto
  next
    case (6 st e) show ?case by simp
  qed
  then show ?thesis using res by blast
qed

lemma tree_inv_init:
  "tree_inv grid start \<lparr>openq = heappush [] (heuristic start goal, 0, start), came = Map.empty,
      gcost = [start \<mapsto> 0], visited = {}\<rparr>"
  by (simp add: tree_inv_def heappush_def)

lemma astar_route:
  assumes "astar grid start goal = Some (Inr (Some p))"
  shows "route grid start goal p"
proof (cases grid)
  case Nil
  then show ?thesis using assms by (simp add: astar_def)
next
  case (Cons row0 rest)
  then have "astar_loop grid (int (length grid)) (int (length (hd grid))) goal
      \<lparr>openq = heappush [] (heuristic start goal, 0, start), came = Map.empty,
       gcost = [start \<mapsto> 0], visited = {}\<rparr> = Some (Inr (Some p))"
    using assms by (simp add: astar_def)
  from astar_loop_sound [OF tree_inv_init this] show ?thesis .
qed

text \<open>
  A grid as \<open>current_grid\<close> hands it to the planner: at least one row, all rows of the
  length of the first. On such a grid no index is out of range.
\<close>

definition wf_grid :: "grid \<Rightarrow> bool" where
  "wf_grid grid \<longleftrightarrow> grid \<noteq> [] \<and> (\<forall>row \<in> set grid. length row = length (hd grid))"

definition reachable :: "grid \<Rightarrow> cell \<Rightarrow> cell \<Rightarrow> bool" where
  "reachable grid start goal \<longleftrightarrow> (\<exists>p. route grid start goal p)"

lemma py_get_nonneg: "0 \<le> i \<Longrightarrow> i < int (length xs) \<Longrightarrow> py_get xs i = Inr (xs ! nat i)"
  by (simp add: py_get_def)

lemma wf_grid_at:
  assumes "wf_grid grid" "0 \<le> r" "r < int (length grid)" "0 \<le> c" "c < int (length (hd grid))"
  shows "grid_at grid r c = Inr (grid ! nat r ! nat c)"
proof -
  have "nat r < length grid" using assms(2,3) by linarith
  then have "grid ! nat r \<in> set grid" by (rule nth_mem)
  then have "length (grid ! nat r) = length (hd grid)" using assms(1) unfolding wf_grid_def by blast
  then have "c < int (length (grid ! nat r))" using assms(5) by (simp only:)
  then have "py_get (grid ! nat r) c = Inr (grid ! nat r ! nat c)" using assms(4) by (intro py_get_nonneg)
  moreover have "py_get grid r = Inr (grid ! nat r)" using assms(2,3) by (intro py_get_nonneg)
  ultimately show ?thesis by (simp only: grid_at_def sum.case)
qed

lemma relax_gcost_mono:
  assumes "relax grid rows cols goal cur d st = Inr st'" "gcost st n \<noteq> None"
  shows "gcost st' n \<noteq> None"
  using assms(1)
proof (cases rule: relax_cases)
  case same then show ?thesis using assms(2) by simp
next
  case (upd gc) then show ?thesis using assms(2) by simp
qed

lemma relax_no_error:
  assumes wf: "wf_grid grid" and g: "gcost st cur \<noteq> None"
  shows "relax grid (int (length grid)) (int (length (hd grid))) goal cur d st \<noteq> Inl e"
proof -
  obtain gc where gc: "gcost st cur = Some gc" using g by blast
  show ?thesis
  proof (cases "0 \<le> fst cur + fst d \<and> fst cur + fst d < int (length grid) \<and>
                0 \<le> snd cur + snd d \<and> snd cur + snd d < int (length (hd grid))")
    case True
    then have "grid_at grid (fst cur + fst d) (snd cur + snd d)
        = Inr (grid ! nat (fst cur + fst d) ! nat (snd cur + snd d))"
      using wf_grid_at [OF wf] by blast
    then show ?thesis using gc True by (simp add: relax_def Let_def)
  next
    case False
    have "relax grid (int (length grid)) (int (length (hd grid))) goal cur d st = Inr st"
      unfolding relax_def Let_def by (rule if_not_P) (use False in blast)
    then show ?thesis by simp
  qed
qed

lemma relax_all_no_error:
  assumes wf: "wf_grid grid" and g: "gcost st cur \<noteq> None"
  shows "relax_all grid (int (length grid)) (int (length (hd grid))) goal cur ds st \<noteq> Inl e"
  using g
proof (induction ds arbitrary: st)
  case Nil
  show ?case by simp
next
  case (Cons d ds)
  show ?case
  proof (cases "relax grid (int (length grid)) (int (length (hd grid))) goal cur d st")
    case (Inl e')
    then show ?thesis using relax_no_error [OF wf Cons.prems] by blast
  next
    case (Inr st1)
    have "gcost st1 cur \<noteq> None" using relax_gcost_mono [OF Inr Cons.prems] .
    from Cons.IH [OF this] show ?thesis using Inr by simp
  qed
qed

lemma gcost_expand_in: "gcost (expand_in st) = gcost st"
  by (simp add: expand_in_def popped_def)

lemma astar_loop_returns:
  assumes inv: "tree_inv grid start st"
  shows "astar_loop grid (int (length grid)) (int (length (hd grid))) goal st \<noteq> None"
proof (rule astar_loop_rule [where I = "tree_inv grid start"], goal_cases)
  case 1 show ?case by (rule inv)
next
  case (2 st) then show ?case by (simp add: tree_inv_popped)
next
  case (3 st st2)
  show ?case by (rule relax_all_tree_inv [OF tree_inv_expand_in [OF 3(1,2)] 3(5)]) simp
next
  case (4 st) show ?case by simp
next
  case (5 st)
  from tree_inv_top [OF 5(1,2)] 5(3) obtain gn where "gcost st goal = Some gn" by auto
  from reconstruct_route [OF 5(1) this] show ?case by auto
next
  case (6 st e) show ?case by simp
qed

lemma astar_loop_no_error:
  assumes inv: "tree_inv grid start st" and wf: "wf_grid grid"
  shows "astar_loop grid (int (length grid)) (int (length (hd grid))) goal st \<noteq> Some (Inl e)"
proof (rule astar_loop_rule [where I = "tree_inv grid start"], goal_cases)
  case 1 show ?case by (rule inv)
next
  case (2 st) then show ?case by (simp add: tree_inv_popped)
next
  case (3 st st2)
  show ?case by (rule relax_all_tree_inv [OF tree_inv_expand_in [OF 3(1,2)] 3(5)]) simp
next
  case (4 st) show ?case by simp
next
  case (5 st) show ?case by (auto simp: map_option_case split: option.splits)
next
  case (6 st e')
  have "gcost (expand_in st) (least_cell st) \<noteq> None"
    using tree_inv_top [OF 6(1,2)] by (simp add: gcost_expand_in)
  from relax_all_no_error [OF wf this] 6(5) show ?case by blast
qed

lemma astar_unfold:
  assumes "grid \<noteq> []"
  shows "astar grid start goal =
    astar_loop grid (int (length grid)) (int (length (hd grid))) goal
      \<lparr>openq = heappush [] (heuristic start goal, 0, start), came = Map.empty,
       gcost = [start \<mapsto> 0], visited = {}\<rparr>"
  using assms by (cases grid) (simp_all add: astar_def)

lemma astar_returns: "astar grid start goal \<noteq> None"
proof (cases "grid = []")
  case True then show ?thesis by (simp add: astar_def)
next
  case False
  show ?thesis unfolding astar_unfold [OF False] by (rule astar_loop_returns [OF tree_inv_init])
qed

lemma wf_grid_nonempty: "wf_grid grid \<Longrightarrow> grid \<noteq> []"
  unfolding wf_grid_def by blast

lemma astar_no_error:
  assumes "wf_grid grid"
  shows "astar grid start goal \<noteq> Some (Inl e)"
  unfolding astar_unfold [OF wf_grid_nonempty [OF assms]]
  by (rule astar_loop_no_error [OF tree_inv_init assms])

lemma astar_total:
  assumes "wf_grid grid"
  obtains (nopath) "astar grid start goal = Some (Inr None)"
  | (path) p where "astar grid start goal = Some (Inr (Some p))" "route grid start goal p"
proof (cases "astar grid start goal")
  case None then show ?thesis using astar_returns by blast
next
  case (Some r)
  show ?thesis
  proof (cases r)
    case (Inl e) then show ?thesis using Some astar_no_error [OF assms] by blast
  next
    case (Inr v)
    show ?thesis
    proof (cases v)
      case None then show ?thesis using Some Inr nopath by simp
    next
      case (Some p)
      then have "astar grid start goal = Some (Inr (Some p))" using \<open>astar grid start goal = Some r\<close> Inr by simp
      then show ?thesis using path astar_route by blast
    qed
  qed
qed

lemma astar_no_route_None:
  assumes "wf_grid grid" "\<not> reachable grid start goal"
  shows "astar grid start goal = Some (Inr None)"
  using astar_total [OF assms(1), of start goal] assms(2) unfolding reachable_def by blast

text \<open>
  Optimality. \<open>reach grid start k n\<close>: the cell \<open>n\<close> is reached from the start in
  \<open>k\<close> moves over free cells. The invariant \<open>opt_inv\<close> says that heap entries carry
  \<open>f = cost + h\<close> with a cost no smaller than the current \<open>g\<close>, that every unvisited
  cell with a cost has its current entry in the heap, that the moves of a visited cell
  (other than the one being expanded, \<open>X\<close>) are relaxed, that a visited cell has the
  least cost any walk gives it, and that every cost is the length of a walk. With the
  consistency of the Manhattan heuristic, the least entry of the heap then bounds the cost
  of the cell being popped.
\<close>

inductive reach :: "grid \<Rightarrow> cell \<Rightarrow> nat \<Rightarrow> cell \<Rightarrow> bool" for grid :: grid and start :: cell where
  reach0: "reach grid start 0 start"
| reachS: "reach grid start k u \<Longrightarrow> adjacent u v \<Longrightarrow> free grid v \<Longrightarrow> reach grid start (Suc k) v"

definition opt_inv :: "grid \<Rightarrow> cell \<Rightarrow> cell \<Rightarrow> cell set \<Rightarrow> astar_state \<Rightarrow> bool" where
  "opt_inv grid start goal X st \<longleftrightarrow>
    (\<forall>f c n. (f, c, n) \<in> set (openq st) \<longrightarrow>
        f = c + heuristic n goal \<and> (\<exists>gv. gcost st n = Some gv \<and> gv \<le> c)) \<and>
    (\<forall>n gv. gcost st n = Some gv \<longrightarrow> n \<notin> visited st \<longrightarrow>
        (gv + heuristic n goal, gv, n) \<in> set (openq st)) \<and>
    (\<forall>v w. v \<in> visited st - X \<longrightarrow> adjacent v w \<longrightarrow> free grid w \<longrightarrow>
        (\<exists>gv gw. gcost st v = Some gv \<and> gcost st w = Some gw \<and> gw \<le> gv + 1)) \<and>
    (\<forall>v k. v \<in> visited st \<longrightarrow> reach grid start k v \<longrightarrow>
        (\<exists>gv. gcost st v = Some gv \<and> gv \<le> int k)) \<and>
    (\<forall>n gv. gcost st n = Some gv \<longrightarrow> (\<exists>k. reach grid start k n \<and> int k = gv)) \<and>
    goal \<notin> visited st"

lemma opt_inv_entry:
  "opt_inv grid start goal X st \<Longrightarrow> (f, c, n) \<in> set (openq st) \<Longrightarrow>
   f = c + heuristic n goal \<and> (\<exists>gv. gcost st n = Some gv \<and> gv \<le> c)"
  unfolding opt_inv_def by blast

lemma opt_inv_open:
  "opt_inv grid start goal X st \<Longrightarrow> gcost st n = Some gv \<Longrightarrow> n \<notin> visited st \<Longrightarrow>
   (gv + heuristic n goal, gv, n) \<in> set (openq st)"
  unfolding opt_inv_def by blast

lemma opt_inv_relaxed:
  "opt_inv grid start goal X st \<Longrightarrow> v \<in> visited st \<Longrightarrow> v \<notin> X \<Longrightarrow> adjacent v w \<Longrightarrow> free grid w \<Longrightarrow>
   \<exists>gv gw. gcost st v = Some gv \<and> gcost st w = Some gw \<and> gw \<le> gv + 1"
  unfolding opt_inv_def by blast

lemma opt_inv_closed:
  "opt_inv grid start goal X st \<Longrightarrow> v \<in> visited st \<Longrightarrow> reach grid start k v \<Longrightarrow>
   \<exists>gv. gcost st v = Some gv \<and> gv \<le> int k"
  unfolding opt_inv_def by blast

lemma opt_inv_real:
  "opt_inv grid start goal X st \<Longrightarrow> gcost st n = Some gv \<Longrightarrow> \<exists>k. reach grid start k n \<and> int k = gv"
  unfolding opt_inv_def by blast

lemma opt_inv_goal: "opt_inv grid start goal X st \<Longrightarrow> goal \<notin> visited st"
  unfolding opt_inv_def by blast

lemma heuristic_nonneg: "0 \<le> heuristic a b"
  by (simp add: heuristic_def)

lemma heuristic_self: "heuristic a a = 0"
  by (simp add: heuristic_def)

lemma adjacent_cases:
  "adjacent a b \<longleftrightarrow> (\<exists>d \<in> set moves4. b = (fst a + fst d, snd a + snd d))"
  unfolding adjacent_def moves4_def by (cases a; cases b) auto

lemma adjacent_heuristic: "adjacent u v \<Longrightarrow> heuristic u t \<le> heuristic v t + 1"
  unfolding adjacent_def moves4_def heuristic_def by auto

lemma adjacent_heuristic': "adjacent u v \<Longrightarrow> heuristic t v \<le> heuristic t u + 1"
  unfolding adjacent_def moves4_def heuristic_def by auto

lemma entry_le_fst: "(e1 :: entry) \<le> e2 \<Longrightarrow> fst e1 \<le> fst e2"
  by (auto simp: less_eq_prod_def)

lemma frontier:
  assumes tr: "tree_inv grid start st" and inv: "opt_inv grid start goal {} st"
    and r: "reach grid start k n"
  shows "n \<in> visited st \<or> (\<exists>f c m. (f, c, m) \<in> set (openq st) \<and> f \<le> int k + heuristic n goal)"
  using r
proof (induction rule: reach.induct)
  case reach0
  show ?case
  proof (cases "start \<in> visited st")
    case False
    have "(0 + heuristic start goal, 0, start) \<in> set (openq st)"
      using opt_inv_open [OF inv tree_inv_start [OF tr] False] .
    moreover have "0 + heuristic start goal \<le> int 0 + heuristic start goal" by simp
    ultimately show ?thesis by blast
  qed simp
next
  case (reachS k u v)
  show ?case
  proof (cases "v \<in> visited st")
    case vv: False
    from reachS.IH show ?thesis
    proof
      assume uv: "u \<in> visited st"
      from opt_inv_closed [OF inv uv reachS.hyps(1)] obtain gu where
        gu: "gcost st u = Some gu" "gu \<le> int k" by blast
      from opt_inv_relaxed [OF inv uv _ reachS.hyps(2,3)] gu obtain gw where
        gw: "gcost st v = Some gw" "gw \<le> gu + 1" by auto
      have "(gw + heuristic v goal, gw, v) \<in> set (openq st)"
        using opt_inv_open [OF inv gw(1) vv] .
      moreover have "gw + heuristic v goal \<le> int (Suc k) + heuristic v goal" using gw(2) gu(2) by simp
      ultimately show ?thesis by blast
    next
      assume "\<exists>f c m. (f, c, m) \<in> set (openq st) \<and> f \<le> int k + heuristic u goal"
      then obtain f c m where e: "(f, c, m) \<in> set (openq st)" "f \<le> int k + heuristic u goal" by blast
      have "f \<le> int (Suc k) + heuristic v goal"
        using e(2) adjacent_heuristic [OF reachS.hyps(2), of goal] by simp
      then show ?thesis using e(1) by blast
    qed
  qed simp
qed


definition target :: "cell \<Rightarrow> int \<times> int \<Rightarrow> cell" where
  "target cur d = (fst cur + fst d, snd cur + snd d)"

lemma relax_free_cases:
  assumes "relax grid (int (length grid)) (int (length (hd grid))) goal cur d st = Inr st'"
  obtains (blocked) "\<not> free grid (target cur d)" "st' = st"
  | (keep) gc where "free grid (target cur d)" "gcost st cur = Some gc"
      "\<not> gc + 1 < (case gcost st (target cur d) of None \<Rightarrow> 1000000000 | Some x \<Rightarrow> x)" "st' = st"
  | (upd) gc where "free grid (target cur d)" "gcost st cur = Some gc"
      "gc + 1 < (case gcost st (target cur d) of None \<Rightarrow> 1000000000 | Some x \<Rightarrow> x)"
      "st' = st\<lparr>came := (came st)(target cur d \<mapsto> cur),
                gcost := (gcost st)(target cur d \<mapsto> gc + 1),
                openq := heappush (openq st)
                  (gc + 1 + heuristic (target cur d) goal, gc + 1, target cur d)\<rparr>"
proof -
  define nb where "nb = target cur d"
  define inb where "inb \<longleftrightarrow> 0 \<le> fst nb \<and> fst nb < int (length grid) \<and>
      0 \<le> snd nb \<and> snd nb < int (length (hd grid))"
  define old where "old = (case gcost st nb of None \<Rightarrow> 1000000000 | Some x \<Rightarrow> x)"
  have fr: "free grid nb \<longleftrightarrow> inb \<and> grid_at grid (fst nb) (snd nb) = Inr 0"
    unfolding free_def inb_def by blast
  have eq: "relax grid (int (length grid)) (int (length (hd grid))) goal cur d st =
     (if inb then
        (case grid_at grid (fst nb) (snd nb) of
           Inl e \<Rightarrow> Inl e
         | Inr v \<Rightarrow>
             if v = 0 then
               (case gcost st cur of
                  None \<Rightarrow> Inl KeyError
                | Some gc \<Rightarrow>
                    if gc + 1 < old
                    then Inr (st\<lparr>came := (came st)(nb \<mapsto> cur),
                                 gcost := (gcost st)(nb \<mapsto> gc + 1),
                                 openq := heappush (openq st) (gc + 1 + heuristic nb goal, gc + 1, nb)\<rparr>)
                    else Inr st)
             else Inr st)
      else Inr st)"
    unfolding relax_def Let_def inb_def nb_def old_def target_def fst_conv snd_conv ..
  note r = assms [unfolded eq]
  show thesis
  proof (cases inb)
    case False
    then have "st' = st" using r by simp
    moreover have "\<not> free grid nb" using False fr by simp
    ultimately show ?thesis unfolding nb_def by (intro blocked)
  next
    case inb: True
    show ?thesis
    proof (cases "grid_at grid (fst nb) (snd nb)")
      case (Inl e)
      then show ?thesis using r inb by simp
    next
      case (Inr v)
      show ?thesis
      proof (cases "v = 0")
        case False
        then have "st' = st" using r inb Inr by simp
        moreover have "\<not> free grid nb" using False fr Inr by simp
        ultimately show ?thesis unfolding nb_def by (intro blocked)
      next
        case v0: True
        have frnb: "free grid nb" using fr inb Inr v0 by simp
        show ?thesis
        proof (cases "gcost st cur")
          case None
          then show ?thesis using r inb Inr v0 by simp
        next
          case (Some gc)
          show ?thesis
          proof (cases "gc + 1 < old")
            case False
            then have "st' = st" using r inb Inr v0 Some by simp
            then show ?thesis using frnb Some False unfolding nb_def old_def by (intro keep [of gc])
          next
            case True
            have "st' = st\<lparr>came := (came st)(nb \<mapsto> cur),
                gcost := (gcost st)(nb \<mapsto> gc + 1),
                openq := heappush (openq st) (gc + 1 + heuristic nb goal, gc + 1, nb)\<rparr>"
              using r inb Inr v0 Some True by simp
            then show ?thesis using frnb Some True unfolding nb_def old_def by (intro upd [of gc])
          qed
        qed
      qed
    qed
  qed
qed

lemma target_adjacent: "d \<in> set moves4 \<Longrightarrow> adjacent cur (target cur d)"
  by (simp add: adjacent_def target_def)

lemma target_neq: "d \<in> set moves4 \<Longrightarrow> target cur d \<noteq> cur"
  by (auto simp: target_def moves4_def prod_eq_iff)

lemma adjacent_target: "adjacent cur w \<Longrightarrow> \<exists>d \<in> set moves4. w = target cur d"
  unfolding adjacent_cases target_def .


lemma relax_opt:
  assumes inv: "opt_inv grid start goal {cur} st"
    and gc: "gcost st cur = Some gc"
    and bound: "gc + 1 < 1000000000"
    and d: "d \<in> set moves4"
    and r: "relax grid (int (length grid)) (int (length (hd grid))) goal cur d st = Inr st'"
  shows "opt_inv grid start goal {cur} st' \<and> gcost st' cur = Some gc \<and>
         (free grid (target cur d) \<longrightarrow> (\<exists>gw. gcost st' (target cur d) = Some gw \<and> gw \<le> gc + 1)) \<and>
         (\<forall>n gv. gcost st n = Some gv \<longrightarrow> (\<exists>gv'. gcost st' n = Some gv' \<and> gv' \<le> gv))"
  using r
proof (cases rule: relax_free_cases)
  case blocked
  then show ?thesis using inv gc by simp
next
  case (keep gc')
  have "gc' = gc" using keep(2) gc by simp
  then have "\<exists>gw. gcost st (target cur d) = Some gw \<and> gw \<le> gc + 1"
    using keep(3) bound by (cases "gcost st (target cur d)") auto
  then show ?thesis using keep(4) inv gc by simp
next
  case (upd gc')
  define nb where "nb = target cur d"
  note upd = upd [folded nb_def]
  have gc': "gc' = gc" using upd(2) gc by simp
  have fr: "free grid nb" by (rule upd(1))
  have adj: "adjacent cur nb" unfolding nb_def by (rule target_adjacent [OF d])
  have neq: "nb \<noteq> cur" unfolding nb_def by (rule target_neq [OF d])
  have lt: "\<And>x. gcost st nb = Some x \<Longrightarrow> gc + 1 < x" using upd(3) gc' by simp
  from opt_inv_real [OF inv gc] obtain k where k: "reach grid start k cur" "int k = gc" by blast
  have rnb: "reach grid start (Suc k) nb" using k(1) adj fr by (rule reachS)
  have nbv: "nb \<notin> visited st"
  proof
    assume "nb \<in> visited st"
    from opt_inv_closed [OF inv this rnb] obtain gv where "gcost st nb = Some gv" "gv \<le> int (Suc k)"
      by blast
    then show False using lt [of gv] k(2) by simp
  qed
  have cm: "came st' = (came st)(nb \<mapsto> cur)" and gm: "gcost st' = (gcost st)(nb \<mapsto> gc + 1)"
    and oq: "set (openq st') = insert (gc + 1 + heuristic nb goal, gc + 1, nb) (set (openq st))"
    and vs: "visited st' = visited st"
    using upd(4) gc' by (simp_all add: heappush_def)
  have mono: "\<exists>gv'. gcost st' n = Some gv' \<and> gv' \<le> gv" if "gcost st n = Some gv" for n gv
  proof (cases "n = nb")
    case True then show ?thesis using that lt [of gv] gm by simp
  next
    case False then show ?thesis using that gm by simp
  qed
  have "opt_inv grid start goal {cur} st'"
    unfolding opt_inv_def
  proof (intro conjI allI impI)
    fix f c n assume e: "(f, c, n) \<in> set (openq st')"
    show "f = c + heuristic n goal"
      using e oq opt_inv_entry [OF inv, of f c n] by auto
    show "\<exists>gv. gcost st' n = Some gv \<and> gv \<le> c"
    proof (cases "(f, c, n) = (gc + 1 + heuristic nb goal, gc + 1, nb)")
      case True then show ?thesis using gm by simp
    next
      case False
      then have "(f, c, n) \<in> set (openq st)" using e unfolding oq by blast
      from opt_inv_entry [OF inv this] obtain gv where gv: "gcost st n = Some gv" "gv \<le> c" by blast
      from mono [OF gv(1)] gv(2) show ?thesis by force
    qed
  next
    fix n gv assume a: "gcost st' n = Some gv" "n \<notin> visited st'"
    show "(gv + heuristic n goal, gv, n) \<in> set (openq st')"
    proof (cases "n = nb")
      case True then show ?thesis using a(1) gm oq by simp
    next
      case False
      then have "gcost st n = Some gv" using a(1) gm by simp
      from opt_inv_open [OF inv this] a(2) vs show ?thesis using oq by simp
    qed
  next
    fix v w assume a: "v \<in> visited st' - {cur}" "adjacent v w" "free grid w"
    then have vv: "v \<in> visited st" "v \<notin> {cur}" using vs by simp_all
    from opt_inv_relaxed [OF inv vv a(2,3)] obtain gv gw where
      g: "gcost st v = Some gv" "gcost st w = Some gw" "gw \<le> gv + 1" by blast
    have "v \<noteq> nb" using vv(1) nbv by blast
    then have "gcost st' v = Some gv" using g(1) gm by simp
    moreover from mono [OF g(2)] obtain gw' where "gcost st' w = Some gw'" "gw' \<le> gw" by blast
    ultimately show "\<exists>gv gw. gcost st' v = Some gv \<and> gcost st' w = Some gw \<and> gw \<le> gv + 1"
      using g(3) by force
  next
    fix v k' assume a: "v \<in> visited st'" "reach grid start k' v"
    then have vv: "v \<in> visited st" using vs by simp
    from opt_inv_closed [OF inv vv a(2)] obtain gv where g: "gcost st v = Some gv" "gv \<le> int k'" by blast
    have "v \<noteq> nb" using vv nbv by blast
    then show "\<exists>gv. gcost st' v = Some gv \<and> gv \<le> int k'" using g gm by simp
  next
    fix n gv assume a: "gcost st' n = Some gv"
    show "\<exists>k. reach grid start k n \<and> int k = gv"
    proof (cases "n = nb")
      case True
      then have "gv = gc + 1" using a gm by simp
      then show ?thesis using rnb k(2) True by (intro exI [of _ "Suc k"]) simp
    next
      case False
      then have "gcost st n = Some gv" using a gm by simp
      then show ?thesis by (rule opt_inv_real [OF inv])
    qed
  next
    show "goal \<notin> visited st'" using opt_inv_goal [OF inv] vs by simp
  qed
  moreover have "gcost st' cur = Some gc" using gm gc neq by simp
  moreover have "\<exists>gw. gcost st' nb = Some gw \<and> gw \<le> gc + 1" using gm by simp
  ultimately show ?thesis using mono unfolding nb_def by blast
qed


lemma relax_all_opt:
  assumes "opt_inv grid start goal {cur} st"
    and "gcost st cur = Some gc"
    and "gc + 1 < 1000000000"
    and "set ds \<subseteq> set moves4"
    and "relax_all grid (int (length grid)) (int (length (hd grid))) goal cur ds st = Inr st'"
    and "\<forall>d \<in> D. free grid (target cur d) \<longrightarrow> (\<exists>gw. gcost st (target cur d) = Some gw \<and> gw \<le> gc + 1)"
  shows "opt_inv grid start goal {cur} st' \<and>
         (\<forall>d \<in> D \<union> set ds. free grid (target cur d) \<longrightarrow>
            (\<exists>gw. gcost st' (target cur d) = Some gw \<and> gw \<le> gc + 1))"
  using assms
proof (induction ds arbitrary: st D)
  case Nil
  then show ?case by simp
next
  case (Cons d ds)
  from Cons.prems(5) obtain st1 where
    r: "relax grid (int (length grid)) (int (length (hd grid))) goal cur d st = Inr st1" and
    ra: "relax_all grid (int (length grid)) (int (length (hd grid))) goal cur ds st1 = Inr st'"
    by (auto split: sum.splits)
  have d: "d \<in> set moves4" and ds: "set ds \<subseteq> set moves4" using Cons.prems(4) by simp_all
  from relax_opt [OF Cons.prems(1,2,3) d r] have
    inv1: "opt_inv grid start goal {cur} st1" and gc1: "gcost st1 cur = Some gc" and
    new: "free grid (target cur d) \<longrightarrow> (\<exists>gw. gcost st1 (target cur d) = Some gw \<and> gw \<le> gc + 1)" and
    mono: "\<forall>n gv. gcost st n = Some gv \<longrightarrow> (\<exists>gv'. gcost st1 n = Some gv' \<and> gv' \<le> gv)"
    by blast+
  have D1: "\<forall>d' \<in> insert d D. free grid (target cur d') \<longrightarrow>
      (\<exists>gw. gcost st1 (target cur d') = Some gw \<and> gw \<le> gc + 1)"
  proof (intro ballI impI)
    fix d' assume a: "d' \<in> insert d D" "free grid (target cur d')"
    show "\<exists>gw. gcost st1 (target cur d') = Some gw \<and> gw \<le> gc + 1"
    proof (cases "d' = d")
      case True then show ?thesis using new a(2) by simp
    next
      case False
      then have "d' \<in> D" using a(1) by simp
      then obtain gw where gw: "gcost st (target cur d') = Some gw" "gw \<le> gc + 1"
        using Cons.prems(6) a(2) by blast
      from mono gw(1) obtain gw' where "gcost st1 (target cur d') = Some gw'" "gw' \<le> gw" by blast
      then show ?thesis using gw(2) by force
    qed
  qed
  from Cons.IH [OF inv1 gc1 Cons.prems(3) ds ra D1] show ?case by simp
qed

lemma opt_inv_close:
  assumes inv: "opt_inv grid start goal {cur} st"
    and cur: "\<And>w. adjacent cur w \<Longrightarrow> free grid w \<Longrightarrow>
        \<exists>gv gw. gcost st cur = Some gv \<and> gcost st w = Some gw \<and> gw \<le> gv + 1"
  shows "opt_inv grid start goal {} st"
  unfolding opt_inv_def
proof (intro conjI allI impI)
  fix v w assume a: "v \<in> visited st - {}" "adjacent v w" "free grid w"
  show "\<exists>gv gw. gcost st v = Some gv \<and> gcost st w = Some gw \<and> gw \<le> gv + 1"
  proof (cases "v = cur")
    case True then show ?thesis using cur [OF _ a(3), of ] a(2) by simp
  next
    case False
    then show ?thesis using opt_inv_relaxed [OF inv _ _ a(2,3), of ] a(1) by simp
  qed
qed (use inv in \<open>auto simp: opt_inv_def\<close>)


lemma pop_entry:
  assumes "openq st \<noteq> []"
  shows "\<exists>f c. (f, c, least_cell st) \<in> set (openq st) \<and>
           (\<forall>f' c' m. (f', c', m) \<in> set (openq st) \<longrightarrow> f \<le> f')"
proof -
  obtain f c m where e: "fst (heappop (openq st)) = (f, c, m)" by (metis prod_cases3)
  then have m: "m = least_cell st" by (simp add: least_cell_def)
  have "(f, c, m) \<in> set (openq st)" using heappop_in [OF assms] e by simp
  moreover have "f \<le> f'" if "(f', c', m') \<in> set (openq st)" for f' c' m'
    using entry_le_fst [OF heappop_le [OF assms that]] e by simp
  ultimately show ?thesis using m by blast
qed

lemma popped_keeps:
  assumes "openq st \<noteq> []" "(f, c, n) \<in> set (openq st)" "n \<noteq> least_cell st"
  shows "(f, c, n) \<in> set (openq (popped st))"
proof -
  have "snd (snd (f, c, n)) \<noteq> snd (snd (fst (heappop (openq st))))"
    using assms(3) by (simp add: least_cell_def)
  then have "(f, c, n) \<noteq> fst (heappop (openq st))" by metis
  then show ?thesis using assms(1,2) by (simp add: popped_def heappop_rest)
qed

lemma top_bound:
  assumes tr: "tree_inv grid start st" and inv: "opt_inv grid start goal {} st"
    and ne: "openq st \<noteq> []" and r: "reach grid start k n" and nv: "n \<notin> visited st"
  shows "\<exists>gv. gcost st (least_cell st) = Some gv \<and> gv + heuristic (least_cell st) goal \<le> int k + heuristic n goal"
proof -
  from frontier [OF tr inv r] nv obtain f2 c2 m where
    e2: "(f2, c2, m) \<in> set (openq st)" "f2 \<le> int k + heuristic n goal" by blast
  from pop_entry [OF ne] obtain f c where e: "(f, c, least_cell st) \<in> set (openq st)"
    "\<And>f' c' m. (f', c', m) \<in> set (openq st) \<Longrightarrow> f \<le> f'"
    by blast
  from opt_inv_entry [OF inv e(1)] obtain gv where
    g: "f = c + heuristic (least_cell st) goal" "gcost st (least_cell st) = Some gv" "gv \<le> c" by blast
  have "f \<le> f2" using e(2) [OF e2(1)] .
  then show ?thesis using g e2(2) by force
qed

lemma opt_inv_popped:
  assumes inv: "opt_inv grid start goal {} st" and ne: "openq st \<noteq> []"
    and tv: "least_cell st \<in> visited st"
  shows "opt_inv grid start goal {} (popped st)"
proof -
  have g: "gcost (popped st) = gcost st" and v: "visited (popped st) = visited st"
    by (simp_all add: popped_def)
  show ?thesis
    unfolding opt_inv_def g v
  proof (intro conjI allI impI)
    fix f c n assume "(f, c, n) \<in> set (openq (popped st))"
    then have "(f, c, n) \<in> set (openq st)" using openq_popped [OF ne] by blast
    from opt_inv_entry [OF inv this]
    show "f = c + heuristic n goal" and "\<exists>gv. gcost st n = Some gv \<and> gv \<le> c" by blast+
  next
    fix n gv assume a: "gcost st n = Some gv" "n \<notin> visited st"
    then have "n \<noteq> least_cell st" using tv by blast
    from popped_keeps [OF ne opt_inv_open [OF inv a] this]
    show "(gv + heuristic n goal, gv, n) \<in> set (openq (popped st))" .
  next
    fix v w assume "v \<in> visited st - {}" "adjacent v w" "free grid w"
    then show "\<exists>gv gw. gcost st v = Some gv \<and> gcost st w = Some gw \<and> gw \<le> gv + 1"
      using opt_inv_relaxed [OF inv, of v w] by simp
  next
    fix v k assume "v \<in> visited st" "reach grid start k v"
    then show "\<exists>gv. gcost st v = Some gv \<and> gv \<le> int k" by (rule opt_inv_closed [OF inv])
  next
    fix n gv assume "gcost st n = Some gv"
    then show "\<exists>k. reach grid start k n \<and> int k = gv" by (rule opt_inv_real [OF inv])
  next
    show "goal \<notin> visited st" by (rule opt_inv_goal [OF inv])
  qed
qed

lemma opt_inv_expand_in:
  assumes tr: "tree_inv grid start st" and inv: "opt_inv grid start goal {} st"
    and ne: "openq st \<noteq> []" and tg: "least_cell st \<noteq> goal" and tv: "least_cell st \<notin> visited st"
  shows "opt_inv grid start goal {least_cell st} (expand_in st)"
proof -
  have g: "gcost (expand_in st) = gcost st" and v: "visited (expand_in st) = insert (least_cell st) (visited st)"
    and q: "openq (expand_in st) = openq (popped st)"
    by (simp_all add: expand_in_def popped_def)
  show ?thesis
    unfolding opt_inv_def g v q
  proof (intro conjI allI impI)
    fix f c n assume "(f, c, n) \<in> set (openq (popped st))"
    then have "(f, c, n) \<in> set (openq st)" using openq_popped [OF ne] by blast
    from opt_inv_entry [OF inv this]
    show "f = c + heuristic n goal" and "\<exists>gv. gcost st n = Some gv \<and> gv \<le> c" by blast+
  next
    fix n gv assume a: "gcost st n = Some gv" "n \<notin> insert (least_cell st) (visited st)"
    then have "n \<noteq> least_cell st" "n \<notin> visited st" by simp_all
    from popped_keeps [OF ne opt_inv_open [OF inv a(1) this(2)] this(1)]
    show "(gv + heuristic n goal, gv, n) \<in> set (openq (popped st))" .
  next
    fix v w assume "v \<in> insert (least_cell st) (visited st) - {least_cell st}" "adjacent v w" "free grid w"
    then show "\<exists>gv gw. gcost st v = Some gv \<and> gcost st w = Some gw \<and> gw \<le> gv + 1"
      using opt_inv_relaxed [OF inv, of v w] by simp
  next
    fix v k assume a: "v \<in> insert (least_cell st) (visited st)" "reach grid start k v"
    show "\<exists>gv. gcost st v = Some gv \<and> gv \<le> int k"
    proof (cases "v = least_cell st")
      case True
      from top_bound [OF tr inv ne a(2)] True tv show ?thesis by auto
    next
      case False
      then have "v \<in> visited st" using a(1) by simp
      then show ?thesis using a(2) by (rule opt_inv_closed [OF inv])
    qed
  next
    fix n gv assume "gcost st n = Some gv"
    then show "\<exists>k. reach grid start k n \<and> int k = gv" by (rule opt_inv_real [OF inv])
  next
    show "goal \<notin> insert (least_cell st) (visited st)" using opt_inv_goal [OF inv] tg by simp
  qed
qed

lemma opt_inv_init:
  "opt_inv grid start goal {} \<lparr>openq = heappush [] (heuristic start goal, 0, start),
      came = Map.empty, gcost = [start \<mapsto> 0], visited = {}\<rparr>"
  unfolding opt_inv_def
proof (intro conjI allI impI)
  fix n gv
  assume "gcost \<lparr>openq = heappush [] (heuristic start goal, 0, start),
      came = Map.empty, gcost = [start \<mapsto> 0], visited = {}\<rparr> n = Some gv"
  then have "n = start \<and> gv = 0" by (simp split: if_splits)
  then show "\<exists>k. reach grid start k n \<and> int k = gv" using reach0 [of grid start] by force
qed (simp_all add: heappush_def split: if_splits)


lemma heuristic_pos: "a \<noteq> b \<Longrightarrow> 1 \<le> heuristic a b"
  by (cases a; cases b) (auto simp: heuristic_def)

lemma astar_loop_optimal:
  assumes wf: "wf_grid grid"
    and goal: "reach grid start K goal" and bound: "int K < 1000000000"
    and tr0: "tree_inv grid start st0" and inv0: "opt_inv grid start goal {} st0"
  shows "\<exists>p. astar_loop grid (int (length grid)) (int (length (hd grid))) goal st0 = Some (Inr (Some p)) \<and>
           route grid start goal p \<and> length p \<le> K + 1"
proof (rule astar_loop_rule
    [where I = "\<lambda>st. tree_inv grid start st \<and> opt_inv grid start goal {} st"], goal_cases)
  case 1
  show ?case using tr0 inv0 by simp
next
  case (2 st)
  then show ?case by (simp add: tree_inv_popped opt_inv_popped)
next
  case (3 st st2)
  then have tr: "tree_inv grid start st" and inv: "opt_inv grid start goal {} st" by simp_all
  note ne = 3(2) and tg = 3(3) and tv = 3(4) and ra = 3(5)
  have tr2: "tree_inv grid start st2"
    by (rule relax_all_tree_inv [OF tree_inv_expand_in [OF tr ne] ra]) simp
  from top_bound [OF tr inv ne goal opt_inv_goal [OF inv]] obtain gc where
    gc: "gcost st (least_cell st) = Some gc" "gc + heuristic (least_cell st) goal \<le> int K + heuristic goal goal"
    by blast
  have gcK: "gc + 1 < 1000000000"
    using gc(2) bound heuristic_pos [OF tg, of] by (simp add: heuristic_self)
  have gce: "gcost (expand_in st) (least_cell st) = Some gc" using gc(1) by (simp add: gcost_expand_in)
  have "opt_inv grid start goal {least_cell st} st2 \<and>
         (\<forall>d \<in> {} \<union> set moves4. free grid (target (least_cell st) d) \<longrightarrow>
            (\<exists>gw. gcost st2 (target (least_cell st) d) = Some gw \<and> gw \<le> gc + 1))"
    by (rule relax_all_opt [OF opt_inv_expand_in [OF tr inv ne tg tv] gce gcK _ ra]) simp_all
  then have inv2: "opt_inv grid start goal {least_cell st} st2" and
    relaxed: "\<And>d. d \<in> set moves4 \<Longrightarrow> free grid (target (least_cell st) d) \<Longrightarrow>
            \<exists>gw. gcost st2 (target (least_cell st) d) = Some gw \<and> gw \<le> gc + 1"
    by simp_all
  have v2: "least_cell st \<in> visited st2"
    using relax_all_visited [OF ra] by (simp add: expand_in_def)
  have "reach grid start (nat gc) (least_cell st)"
    using opt_inv_real [OF inv gc(1)] by auto
  from opt_inv_closed [OF inv2 v2 this] obtain gc2 where
    gc2: "gcost st2 (least_cell st) = Some gc2" "gc2 \<le> int (nat gc)" by blast
  have "0 \<le> gc" using tree_inv_nonneg [OF tr gc(1)] .
  then have gc2le: "gc2 \<le> gc" using gc2(2) by simp
  from opt_inv_real [OF inv2 gc2(1)] obtain k2 where k2: "reach grid start k2 (least_cell st)" "int k2 = gc2"
    by blast
  have "opt_inv grid start goal {} st2"
  proof (rule opt_inv_close [OF inv2])
    fix w assume a: "adjacent (least_cell st) w" "free grid w"
    from adjacent_target [OF a(1)] obtain d where d: "d \<in> set moves4" "w = target (least_cell st) d"
      by blast
    from relaxed [OF d(1)] a(2) d(2) obtain gw where gw: "gcost st2 w = Some gw" "gw \<le> gc + 1" by auto
    have "gc \<le> gc2"
    proof -
      from opt_inv_expand_in [OF tr inv ne tg tv] have "opt_inv grid start goal {least_cell st} (expand_in st)" .
      from opt_inv_closed [OF this _ k2(1)] gce k2(2) show ?thesis by (auto simp: expand_in_def)
    qed
    then show "\<exists>gv gw. gcost st2 (least_cell st) = Some gv \<and> gcost st2 w = Some gw \<and> gw \<le> gv + 1"
      using gc2(1) gw by force
  qed
  then show ?case using tr2 by simp
next
  case (4 st)
  then have tr: "tree_inv grid start st" and inv: "opt_inv grid start goal {} st" by simp_all
  from frontier [OF tr inv goal] opt_inv_goal [OF inv] 4(2) show ?case by simp
next
  case (5 st)
  then have tr: "tree_inv grid start st" and inv: "opt_inv grid start goal {} st" by simp_all
  from top_bound [OF tr inv 5(2) goal opt_inv_goal [OF inv]] 5(3) obtain gn where
    gn: "gcost st goal = Some gn" "gn \<le> int K" by auto
  from reconstruct_route [OF tr gn(1)] obtain p where
    p: "reconstruct (came st) goal [goal] = Some p" "route grid start goal (rev p)"
       "int (length p) \<le> gn + 1" by blast
  have "length (rev p) \<le> K + 1" using p(3) gn(2) by simp
  then show ?case using p(1,2) by simp
next
  case (6 st e)
  then have tr: "tree_inv grid start st" by simp
  have "gcost (expand_in st) (least_cell st) \<noteq> None"
    using tree_inv_top [OF tr 6(2)] by (simp add: gcost_expand_in)
  from relax_all_no_error [OF wf this] 6(5) show ?case by blast
qed

lemma astar_optimal:
  assumes wf: "wf_grid grid"
    and goal: "reach grid start K goal" and bound: "int K < 1000000000"
  shows "\<exists>p. astar grid start goal = Some (Inr (Some p)) \<and> route grid start goal p \<and>
           length p \<le> K + 1"
  unfolding astar_unfold [OF wf_grid_nonempty [OF wf]]
  by (rule astar_loop_optimal [OF wf goal bound tree_inv_init opt_inv_init])

lemma route_reach:
  assumes "route grid start goal p"
  shows "reach grid start (length p - 1) goal"
proof -
  have "hd p = start \<Longrightarrow> successively adjacent p \<Longrightarrow> (\<forall>c \<in> set (tl p). free grid c) \<Longrightarrow>
        reach grid start (length p - 1) (last p)" if "p \<noteq> []"
    using that
  proof (induction p rule: rev_nonempty_induct)
    case (single x)
    then show ?case using reach0 [of grid start] by simp
  next
    case (snoc x xs)
    have "reach grid start (length xs - 1) (last xs)"
      using snoc.IH snoc.prems snoc.hyps by (simp add: successively_append_iff)
    moreover have "adjacent (last xs) x"
      using snoc.prems(2) snoc.hyps by (simp add: successively_append_iff)
    moreover have "free grid x" using snoc.prems(3) snoc.hyps by simp
    ultimately have "reach grid start (Suc (length xs - 1)) x" by (rule reachS)
    moreover have "Suc (length xs - 1) = length (xs @ [x]) - 1" using snoc.hyps by (cases xs) simp_all
    ultimately show ?case by simp
  qed
  then show ?thesis using assms unfolding route_def by blast
qed

lemma reach_route:
  assumes "reach grid start k n"
  shows "\<exists>p. route grid start n p \<and> length p = Suc k"
  using assms
proof (induction rule: reach.induct)
  case reach0
  have "route grid start start [start]" by (simp add: route_def)
  then show ?case by (intro exI [of _ "[start]"]) simp
next
  case (reachS k u v)
  then obtain p where p: "route grid start u p" "length p = Suc k" by blast
  then have ne: "p \<noteq> []" by (simp add: route_def)
  have "route grid start v (p @ [v])"
    using p(1) reachS.hyps(2,3) ne unfolding route_def
    by (simp add: successively_append_iff)
  then show ?case using p(2) by (intro exI [of _ "p @ [v]"]) simp
qed

text \<open>Obstacle-free grids: every cell inside the grid is free.\<close>

definition in_bounds :: "grid \<Rightarrow> cell \<Rightarrow> bool" where
  "in_bounds grid c \<longleftrightarrow>
     0 \<le> fst c \<and> fst c < int (length grid) \<and> 0 \<le> snd c \<and> snd c < int (length (hd grid))"

definition obstacle_free :: "grid \<Rightarrow> bool" where
  "obstacle_free grid \<longleftrightarrow> wf_grid grid \<and> (\<forall>row \<in> set grid. \<forall>v \<in> set row. v = 0)"

lemma obstacle_free_wf: "obstacle_free grid \<Longrightarrow> wf_grid grid"
  by (simp add: obstacle_free_def)

lemma obstacle_free_free:
  assumes "obstacle_free grid" "in_bounds grid c"
  shows "free grid c"
proof -
  have wf: "wf_grid grid" using assms(1) by (rule obstacle_free_wf)
  have b: "0 \<le> fst c" "fst c < int (length grid)" "0 \<le> snd c" "snd c < int (length (hd grid))"
    using assms(2) by (simp_all add: in_bounds_def)
  have r: "nat (fst c) < length grid" using b(1,2) by linarith
  then have row: "grid ! nat (fst c) \<in> set grid" by (rule nth_mem)
  then have "length (grid ! nat (fst c)) = length (hd grid)" using wf unfolding wf_grid_def by blast
  then have "nat (snd c) < length (grid ! nat (fst c))" using b(3,4) by linarith
  then have "grid ! nat (fst c) ! nat (snd c) \<in> set (grid ! nat (fst c))" by (rule nth_mem)
  then have "grid ! nat (fst c) ! nat (snd c) = 0"
    using assms(1) row unfolding obstacle_free_def by blast
  then have "grid_at grid (fst c) (snd c) = Inr 0" using wf_grid_at [OF wf b] by simp
  then show ?thesis using b by (simp add: free_def)
qed

lemma reach_heuristic: "reach grid start k n \<Longrightarrow> heuristic start n \<le> int k"
proof (induction rule: reach.induct)
  case reach0
  show ?case by (simp add: heuristic_self)
next
  case (reachS k u v)
  then show ?case using adjacent_heuristic' [of u v start] by simp
qed

lemma route_length_lower:
  assumes "route grid start goal p"
  shows "heuristic start goal + 1 \<le> int (length p)"
proof -
  have "p \<noteq> []" using assms by (simp add: route_def)
  then have "int (length p - 1) = int (length p) - 1" by (cases p) simp_all
  then show ?thesis using reach_heuristic [OF route_reach [OF assms]] by simp
qed

lemma step_back:
  assumes "in_bounds grid s" "in_bounds grid t" "t \<noteq> s"
  shows "\<exists>u. in_bounds grid u \<and> adjacent u t \<and> heuristic s u = heuristic s t - 1"
proof (cases "fst t = fst s")
  case True
  then have ne: "snd t \<noteq> snd s" using assms(3) by (simp add: prod_eq_iff)
  let ?u = "(fst t, if snd s < snd t then snd t - 1 else snd t + 1)"
  have "in_bounds grid ?u" using assms(1,2) ne by (auto simp: in_bounds_def)
  moreover have "adjacent ?u t" by (simp add: adjacent_def moves4_def)
  moreover have "heuristic s ?u = heuristic s t - 1" using ne by (simp add: heuristic_def)
  ultimately show ?thesis by blast
next
  case ne: False
  let ?u = "(if fst s < fst t then fst t - 1 else fst t + 1, snd t)"
  have "in_bounds grid ?u" using assms(1,2) ne by (auto simp: in_bounds_def)
  moreover have "adjacent ?u t" by (simp add: adjacent_def moves4_def)
  moreover have "heuristic s ?u = heuristic s t - 1" using ne by (simp add: heuristic_def)
  ultimately show ?thesis by blast
qed

lemma obstacle_free_reach:
  assumes of: "obstacle_free grid" and s: "in_bounds grid start" and t: "in_bounds grid t"
  shows "reach grid start (nat (heuristic start t)) t"
  using t
proof (induction "nat (heuristic start t)" arbitrary: t)
  case 0
  then have "heuristic start t = 0" using heuristic_nonneg [of start t] by simp
  then have "t = start" by (auto simp: heuristic_def prod_eq_iff)
  then show ?case using reach0 [of grid start] by (simp add: heuristic_self)
next
  case (Suc n)
  then have h: "heuristic start t = int n + 1" by linarith
  then have "t \<noteq> start" by (auto simp: heuristic_self)
  from step_back [OF s Suc.prems this] obtain u where
    u: "in_bounds grid u" "adjacent u t" "heuristic start u = heuristic start t - 1" by blast
  have "n = nat (heuristic start u)" using u(3) h by simp
  from Suc.hyps(1) [OF this u(1)] have "reach grid start n u" using u(3) h by simp
  then have "reach grid start (Suc n) t" using u(2) obstacle_free_free [OF of Suc.prems] by (rule reachS)
  then show ?case using h by (simp add: nat_add_distrib)
qed

lemma astar_free_grid:
  assumes of: "obstacle_free grid" and s: "in_bounds grid start" and t: "in_bounds grid goal"
    and bound: "heuristic start goal < 1000000000"
  shows "\<exists>p. astar grid start goal = Some (Inr (Some p)) \<and> int (length p) = heuristic start goal + 1"
proof -
  have h0: "0 \<le> heuristic start goal" by (rule heuristic_nonneg)
  have b: "int (nat (heuristic start goal)) < 1000000000" using bound h0 by simp
  from astar_optimal [OF obstacle_free_wf [OF of] obstacle_free_reach [OF of s t] b]
  obtain p where p: "astar grid start goal = Some (Inr (Some p))" "route grid start goal p"
    "length p \<le> nat (heuristic start goal) + 1" by blast
  have "int (length p) \<le> heuristic start goal + 1" using p(3) h0 by linarith
  then have "int (length p) = heuristic start goal + 1" using route_length_lower [OF p(2)] by simp
  then show ?thesis using p(1) by blast
qed

text \<open>
  The sentinel: \<open>g.get(n, 1e9)\<close> lets a cost be stored only when it is below \<open>1e9\<close>,
  and a cost is never below the Manhattan distance from the start. A goal at distance
  \<open>1e9\<close> or more is therefore never given a cost.
\<close>

definition far_inv :: "cell \<Rightarrow> astar_state \<Rightarrow> bool" where
  "far_inv start st \<longleftrightarrow>
     (\<forall>n gv. gcost st n = Some gv \<longrightarrow> gv < 1000000000 \<and> heuristic start n \<le> gv)"

lemma far_invD: "far_inv start st \<Longrightarrow> gcost st n = Some gv \<Longrightarrow> gv < 1000000000 \<and> heuristic start n \<le> gv"
  unfolding far_inv_def by blast

lemma relax_far_inv:
  assumes inv: "far_inv start st" and d: "d \<in> set moves4"
    and r: "relax grid (int (length grid)) (int (length (hd grid))) goal cur d st = Inr st'"
  shows "far_inv start st'"
  using r
proof (cases rule: relax_free_cases)
  case blocked then show ?thesis using inv by simp
next
  case (keep gc) then show ?thesis using inv by simp
next
  case (upd gc)
  have lt: "gc + 1 < 1000000000"
  proof (cases "gcost st (target cur d)")
    case None then show ?thesis using upd(3) by simp
  next
    case (Some x) then show ?thesis using upd(3) far_invD [OF inv Some] by simp
  qed
  have "heuristic start cur \<le> gc" using far_invD [OF inv upd(2)] by simp
  then have le: "heuristic start (target cur d) \<le> gc + 1"
    using adjacent_heuristic' [OF target_adjacent [OF d], of start cur] by simp
  show ?thesis unfolding far_inv_def
  proof (intro allI impI)
    fix n gv assume "gcost st' n = Some gv"
    then show "gv < 1000000000 \<and> heuristic start n \<le> gv"
      using upd(4) lt le far_invD [OF inv, of n gv] by (cases "n = target cur d") simp_all
  qed
qed

lemma relax_all_far_inv:
  assumes "far_inv start st" "set ds \<subseteq> set moves4"
    and "relax_all grid (int (length grid)) (int (length (hd grid))) goal cur ds st = Inr st'"
  shows "far_inv start st'"
  using assms
proof (induction ds arbitrary: st)
  case Nil then show ?case by simp
next
  case (Cons d ds)
  from Cons.prems(3) obtain st1 where
    r: "relax grid (int (length grid)) (int (length (hd grid))) goal cur d st = Inr st1" and
    ra: "relax_all grid (int (length grid)) (int (length (hd grid))) goal cur ds st1 = Inr st'"
    by (auto split: sum.splits)
  have "far_inv start st1" using relax_far_inv [OF Cons.prems(1) _ r] Cons.prems(2) by simp
  from Cons.IH [OF this _ ra] Cons.prems(2) show ?case by simp
qed

lemma astar_loop_far:
  assumes far: "1000000000 \<le> heuristic start goal"
    and tr0: "tree_inv grid start st0" and inv0: "far_inv start st0"
  shows "\<forall>p. astar_loop grid (int (length grid)) (int (length (hd grid))) goal st0 \<noteq> Some (Inr (Some p))"
proof (rule astar_loop_rule [where I = "\<lambda>st. tree_inv grid start st \<and> far_inv start st"], goal_cases)
  case 1 show ?case using tr0 inv0 by simp
next
  case (2 st)
  then have "tree_inv grid start (popped st)" by (simp add: tree_inv_popped)
  moreover have "far_inv start (popped st)" using 2(1) by (simp add: far_inv_def popped_def)
  ultimately show ?case by simp
next
  case (3 st st2)
  then have tr: "tree_inv grid start st" and inv: "far_inv start st" by simp_all
  have "far_inv start (expand_in st)" using inv by (simp add: far_inv_def gcost_expand_in)
  from relax_all_far_inv [OF this _ 3(5)] relax_all_tree_inv [OF tree_inv_expand_in [OF tr 3(2)] 3(5)]
  show ?case by simp
next
  case (4 st) show ?case by simp
next
  case (5 st)
  then have tr: "tree_inv grid start st" and inv: "far_inv start st" by simp_all
  from tree_inv_top [OF tr 5(2)] 5(3) obtain gn where "gcost st goal = Some gn" by auto
  from far_invD [OF inv this] far show ?case by simp
next
  case (6 st e) show ?case by simp
qed

lemma astar_far_None:
  assumes wf: "wf_grid grid" and far: "1000000000 \<le> heuristic start goal"
  shows "astar grid start goal = Some (Inr None)"
proof -
  have "far_inv start \<lparr>openq = heappush [] (heuristic start goal, 0, start),
      came = Map.empty, gcost = [start \<mapsto> 0], visited = {}\<rparr>"
    by (simp add: far_inv_def heuristic_self)
  from astar_loop_far [OF far tree_inv_init this]
  have "\<forall>p. astar grid start goal \<noteq> Some (Inr (Some p))"
    unfolding astar_unfold [OF wf_grid_nonempty [OF wf]] .
  then show ?thesis using astar_total [OF wf, of start goal] by blast
qed

section \<open>Properties of the navigation simulation\<close>

lemma astar_same:
  assumes "g \<noteq> []"
  shows "astar g c c = Some (Inr (Some [c]))"
proof -
  let ?st = "\<lparr>openq = heappush [] (heuristic c c, 0, c), came = Map.empty,
      gcost = [c \<mapsto> 0], visited = {}\<rparr>"
  have q: "openq ?st = [(heuristic c c, 0, c)]" by (simp add: heappush_def)
  have t: "least_cell ?st = c" by (simp add: least_cell_def heappush_def)
  have r: "reconstruct (came ?st) c [c] = Some [c]" by (subst reconstruct.simps) simp
  have "astar_loop g (int (length g)) (int (length (hd g))) c ?st = Some (Inr (Some [c]))"
    by (subst astar_loop_unfold) (simp only: q t r, simp)
  then show ?thesis unfolding astar_unfold [OF assms] .
qed

lemma current_grid_length: "current_grid s = Inr g \<Longrightarrow> length g = length (sim_grid s)"
  by (auto simp: current_grid_def split: if_splits)

lemma compute_path_same:
  assumes "current_grid s = Inr g" "sim_grid s \<noteq> []"
  shows "compute_path s c c = Some (Inr (s\<lparr>planned := planned s @ [(c, c)]\<rparr>, Some [c]))"
proof -
  have "g \<noteq> []" using current_grid_length [OF assms(1)] assms(2) by auto
  then show ?thesis using assms(1) by (simp add: compute_path_def astar_same)
qed

lemma start_navigation_moving:
  "moving s \<Longrightarrow> start_navigation s = Some (Inr (add_log s ''Already navigating'', None))"
  by (simp add: start_navigation_def)

text \<open>
  Once the thread has run the opening statements of \<open>animate_robot\<close> on a path that is
  not empty, \<open>moving\<close> is set and a further \<open>start_navigation\<close> only logs.
\<close>

lemma start_navigation_after_begin:
  assumes "pth \<noteq> []"
  shows "start_navigation (animate_robot_begin pth s) =
           Some (Inr (add_log (animate_robot_begin pth s) ''Already navigating'', None))"
proof -
  have "moving (animate_robot_begin pth s)" using assms by (simp add: animate_robot_begin_def)
  then show ?thesis by (rule start_navigation_moving)
qed

lemma add_log_fields:
  "planned (add_log s txt) = planned s" "moving (add_log s txt) = moving s"
  "returning (add_log s txt) = returning s" "sim_path (add_log s txt) = sim_path s"
  "path_index (add_log s txt) = path_index s" "robot_cell (add_log s txt) = robot_cell s"
  "robot_pos (add_log s txt) = robot_pos s" "dynamic (add_log s txt) = dynamic s"
  by (simp_all add: add_log_def)

lemma compute_path_cases:
  assumes "compute_path s a b = Some (Inr (s', r))"
  obtains g where "current_grid s = Inr g" "astar g a b = Some (Inr r)"
    "s' = s\<lparr>planned := planned s @ [(a, b)]\<rparr>"
  using assms unfolding compute_path_def
  by (auto split: sum.splits option.splits)

lemma replan_cases:
  assumes "replan s = Some (Inr s')"
  obtains (found) g p where
      "current_grid (speak (add_log s ''Obstacle detected on path. Replanning...'')
                           ''Obstacle detected on path. Recalculating route.'') = Inr g"
      "astar g (robot_cell s) (if returning s then sim_start s else sim_goal s) = Some (Inr (Some p))"
      "p \<noteq> []"
      "s' = add_log ((speak (add_log s ''Obstacle detected on path. Replanning...'')
                           ''Obstacle detected on path. Recalculating route.'')
                      \<lparr>planned := planned s @ [(robot_cell s, if returning s then sim_start s else sim_goal s)],
                        sim_path := p, path_index := 0\<rparr>) ''New path found, resuming.''"
  | (failed) "s' = (speak (add_log ((speak (add_log s ''Obstacle detected on path. Replanning...'')
                           ''Obstacle detected on path. Recalculating route.'')
                      \<lparr>planned := planned s @ [(robot_cell s, if returning s then sim_start s else sim_goal s)]\<rparr>)
                      ''No alternative path found.'')
                      ''No alternative path found. Aborting navigation.'')\<lparr>moving := False\<rparr>"
proof -
  define s2 where "s2 = speak (add_log s ''Obstacle detected on path. Replanning...'')
                     ''Obstacle detected on path. Recalculating route.''"
  define dest where "dest = (if returning s then sim_start s else sim_goal s)"
  have f: "returning s2 = returning s" "sim_start s2 = sim_start s" "sim_goal s2 = sim_goal s"
    "robot_cell s2 = robot_cell s" "planned s2 = planned s"
    by (simp_all add: s2_def speak_def add_log_def)
  have eq: "replan s = (case compute_path s2 (robot_cell s) dest of
           None \<Rightarrow> None
         | Some (Inl e) \<Rightarrow> Some (Inl e)
         | Some (Inr (s3, r)) \<Rightarrow>
             (case r of
                Some (c # cs) \<Rightarrow>
                  Some (Inr (add_log (s3\<lparr>sim_path := c # cs, path_index := 0\<rparr>)
                                     ''New path found, resuming.''))
              | _ \<Rightarrow>
                  Some (Inr ((speak (add_log s3 ''No alternative path found.'')
                                    ''No alternative path found. Aborting navigation.'')
                               \<lparr>moving := False\<rparr>))))"
    unfolding replan_def Let_def s2_def [symmetric] f dest_def ..
  from assms eq obtain s3 r where
    cp: "compute_path s2 (robot_cell s) dest = Some (Inr (s3, r))"
    by (auto split: option.splits sum.splits)
  from cp obtain g where g: "current_grid s2 = Inr g" "astar g (robot_cell s) dest = Some (Inr r)"
    "s3 = s2\<lparr>planned := planned s2 @ [(robot_cell s, dest)]\<rparr>"
    by (rule compute_path_cases)
  show thesis
  proof (cases "truthy r")
    case True
    then obtain c cs where r: "r = Some (c # cs)" by (cases r rule: truthy.cases) simp_all
    have "s' = add_log (s3\<lparr>sim_path := c # cs, path_index := 0\<rparr>) ''New path found, resuming.''"
      using assms eq cp r by simp
    then show ?thesis using g r f unfolding s2_def dest_def by (intro found [of g "c # cs"]) simp_all
  next
    case False
    then have "r = None \<or> r = Some []" by (cases r rule: truthy.cases) simp_all
    then have "s' = (speak (add_log s3 ''No alternative path found.'')
                                    ''No alternative path found. Aborting navigation.'')
                               \<lparr>moving := False\<rparr>"
      using assms eq cp by auto
    then show ?thesis using g f unfolding s2_def dest_def by (intro failed) simp
  qed
qed


text \<open>
  The simulation as \<open>__init__\<close> builds it and the mover keeps it: a rectangular grid of
  \<open>cfg_rows\<close> by \<open>cfg_cols\<close> cells, and every dynamic obstacle inside it.
\<close>

definition wf_sim :: "navsim \<Rightarrow> bool" where
  "wf_sim s \<longleftrightarrow>
     wf_grid (sim_grid s) \<and> cfg_rows s = int (length (sim_grid s)) \<and>
     cfg_cols s = int (length (hd (sim_grid s))) \<and>
     (\<forall>c \<in> dynamic s. in_bounds (sim_grid s) c)"

text \<open>The destination of the phase: \<open>self.start if self.returning else self.goal\<close>.\<close>

definition destination :: "navsim \<Rightarrow> cell" where
  "destination s = (if returning s then sim_start s else sim_goal s)"

lemma in_bounds_lands:
  assumes "wf_grid g" "in_bounds g c"
  shows "lands g c = Some (nat (fst c), nat (snd c))"
proof -
  have b: "0 \<le> fst c" "fst c < int (length g)" "0 \<le> snd c" "snd c < int (length (hd g))"
    using assms(2) by (simp_all add: in_bounds_def)
  have "nat (fst c) < length g" using b(1,2) by linarith
  then have "g ! nat (fst c) \<in> set g" by (rule nth_mem)
  then have "length (g ! nat (fst c)) = length (hd g)" using assms(1) unfolding wf_grid_def by blast
  then have "snd c < int (length (g ! nat (fst c)))" using b(4) by simp
  then show ?thesis using b(1,2,3) by (simp add: lands_def py_index_def)
qed

lemma wf_sim_current_grid:
  assumes "wf_sim s"
  shows "\<exists>g. current_grid s = Inr g"
proof -
  have wf: "wf_grid (sim_grid s)" using assms by (simp add: wf_sim_def)
  have "lands (sim_grid s) c \<noteq> None" if "c \<in> marks s" for c
  proof -
    have "in_bounds (sim_grid s) c"
      using that assms unfolding marks_def wf_sim_def in_bounds_def by auto
    from in_bounds_lands [OF wf this] show ?thesis by simp
  qed
  then show ?thesis by (auto simp: current_grid_def)
qed

lemma wf_sim_nonempty: "wf_sim s \<Longrightarrow> sim_grid s \<noteq> []"
  by (simp add: wf_sim_def wf_grid_nonempty)

lemma start_navigation_at_goal:
  assumes "\<not> moving s" "robot_cell s = sim_goal s" "wf_sim s"
  shows "start_navigation s =
           Some (Inr (s\<lparr>planned := planned s @ [(sim_goal s, sim_goal s)]\<rparr>, Some [sim_goal s]))"
proof -
  from wf_sim_current_grid [OF assms(3)] obtain g where "current_grid s = Inr g" by blast
  from compute_path_same [OF this wf_sim_nonempty [OF assms(3)]] assms(1,2)
  show ?thesis by (simp add: start_navigation_def)
qed

lemma replan_effect:
  assumes "replan s = Some (Inr s')"
  shows "returning s' = returning s \<and> sim_start s' = sim_start s \<and> sim_goal s' = sim_goal s \<and>
         robot_cell s' = robot_cell s \<and>
         planned s' = planned s @ [(robot_cell s, destination s)] \<and>
         (path_index s' = 0 \<and> sim_path s' \<noteq> [] \<and> hd (sim_path s') = robot_cell s \<and>
            last (sim_path s') = destination s \<and> moving s' = moving s
          \<or> \<not> moving s' \<and> sim_path s' = sim_path s \<and> path_index s' = path_index s)"
  using assms
proof (cases rule: replan_cases)
  case (found g p)
  from astar_route [OF found(2)] have "hd p = robot_cell s" "last p = destination s"
    by (simp_all add: route_def destination_def)
  then show ?thesis using found(3,4) by (simp add: add_log_def speak_def destination_def)
next
  case failed
  then show ?thesis by (simp add: add_log_def speak_def destination_def)
qed

text \<open>
  The test that sends the arrival step into replanning, read in the state before the step:
  the path has a cell after the one being reached, and that cell is a dynamic obstacle, a
  wall of the static grid or a detected cell.
\<close>

definition next_blocked :: "navsim \<Rightarrow> bool" where
  "next_blocked s \<longleftrightarrow>
     path_index s + 1 < int (length (sim_path s)) \<and>
     (case py_get (sim_path s) (path_index s + 1) of
        Inl e \<Rightarrow> False
      | Inr nxt \<Rightarrow> nxt \<in> dynamic s \<or> grid_at (sim_grid s) (fst nxt) (snd nxt) = Inr 1 \<or>
                   nxt \<in> detected_cells s)"

text \<open>A path the robot can be on: the index points into it and its cells lie in the grid.\<close>

definition on_path :: "navsim \<Rightarrow> bool" where
  "on_path s \<longleftrightarrow>
     0 \<le> path_index s \<and> path_index s < int (length (sim_path s)) \<and>
     list_all (in_bounds (sim_grid s)) (sim_path s)"

lemma arrive_split:
  assumes "arrive s = Some (Inr s')"
  obtains (quiet) tgt where "py_get (sim_path s) (path_index s) = Inr tgt" "\<not> next_blocked s"
      "s' = s\<lparr>robot_cell := tgt, robot_pos := cell_center s tgt, path_index := path_index s + 1\<rparr>"
  | (replanned) tgt where "py_get (sim_path s) (path_index s) = Inr tgt" "next_blocked s"
      "replan (s\<lparr>robot_cell := tgt, robot_pos := cell_center s tgt,
                  path_index := path_index s + 1\<rparr>) = Some (Inr s')"
proof (cases "py_get (sim_path s) (path_index s)")
  case (Inl e)
  then show ?thesis using assms by (simp add: arrive_def)
next
  case (Inr tgt)
  define s1 where "s1 = s\<lparr>robot_cell := tgt, robot_pos := cell_center s tgt,
      path_index := path_index s + 1\<rparr>"
  have f: "path_index s1 = path_index s + 1" "sim_path s1 = sim_path s" "dynamic s1 = dynamic s"
    "sim_grid s1 = sim_grid s" "detected_cells s1 = detected_cells s"
    by (simp_all add: s1_def)
  have eq0: "arrive s =
     (if path_index s1 < int (length (sim_path s1)) then
            (case py_get (sim_path s1) (path_index s1) of
               Inl e \<Rightarrow> Some (Inl e)
             | Inr nxt \<Rightarrow>
                 if nxt \<in> dynamic s1 then replan s1
                 else
                   (case grid_at (sim_grid s1) (fst nxt) (snd nxt) of
                      Inl e \<Rightarrow> Some (Inl e)
                    | Inr v \<Rightarrow>
                        if v = 1 \<or> nxt \<in> detected_cells s1 then replan s1
                        else Some (Inr s1)))
          else Some (Inr s1))"
    unfolding arrive_def Inr s1_def Let_def by simp
  note eq = eq0 [unfolded f]
  show ?thesis
  proof (cases "next_blocked s")
    case True
    then have "replan s1 = Some (Inr s')"
      using assms unfolding eq next_blocked_def by (auto split: if_splits sum.splits)
    then show ?thesis using replanned [OF Inr True] unfolding s1_def by blast
  next
    case False
    then have "s' = s1"
      using assms unfolding eq next_blocked_def by (auto split: if_splits sum.splits)
    then show ?thesis using quiet [OF Inr False] unfolding s1_def by blast
  qed
qed

lemma arrive_blocked_replans:
  assumes "arrive s = Some (Inr s')"
  shows "returning s' = returning s \<and> sim_start s' = sim_start s \<and> sim_goal s' = sim_goal s \<and>
         py_get (sim_path s) (path_index s) = Inr (robot_cell s') \<and>
         (if next_blocked s
          then planned s' = planned s @ [(robot_cell s', destination s)] \<and>
               (path_index s' = 0 \<and> sim_path s' \<noteq> [] \<and> hd (sim_path s') = robot_cell s' \<and>
                  last (sim_path s') = destination s \<and> moving s' = moving s
                \<or> \<not> moving s' \<and> sim_path s' = sim_path s)
          else planned s' = planned s \<and> sim_path s' = sim_path s \<and>
               path_index s' = path_index s + 1 \<and> moving s' = moving s)"
  using assms
proof (cases rule: arrive_split)
  case (quiet tgt)
  then show ?thesis by simp
next
  case (replanned tgt)
  from replan_effect [OF replanned(3)] replanned(1,2) show ?thesis
    by (auto simp: destination_def)
qed

lemma current_grid_wf:
  assumes "wf_sim s" "current_grid s = Inr g"
  shows "wf_grid g"
proof -
  have wf: "wf_grid (sim_grid s)" using assms(1) by (simp add: wf_sim_def)
  then have ne: "sim_grid s \<noteq> []" by (rule wf_grid_nonempty)
  have len: "length (sim_grid s ! i) = length (hd (sim_grid s))" if "i < length (sim_grid s)" for i
    using wf nth_mem [OF that] unfolding wf_grid_def by blast
  have g: "g = map (\<lambda>i. map (\<lambda>j. if \<exists>c \<in> marks s. lands (sim_grid s) c = Some (i, j) then 1
                                     else sim_grid s ! i ! j)
                           [0..<length (sim_grid s ! i)])
                    [0..<length (sim_grid s)]"
    using assms(2) by (simp add: current_grid_def split: if_splits)
  have gl: "length g = length (sim_grid s)" unfolding g by simp
  have gne: "g \<noteq> []" using gl ne by auto
  have row: "length (g ! i) = length (hd (sim_grid s))" if "i < length g" for i
    using that len unfolding g by simp
  have "length (hd g) = length (hd (sim_grid s))"
    using row [of 0] gne by (simp add: hd_conv_nth)
  moreover have "length r = length (hd (sim_grid s))" if "r \<in> set g" for r
    using that row by (auto simp: in_set_conv_nth)
  ultimately show ?thesis using gne unfolding wf_grid_def by simp
qed

lemma replan_returns:
  assumes "wf_sim s"
  shows "\<exists>s'. replan s = Some (Inr s')"
proof -
  define s2 where "s2 = speak (add_log s ''Obstacle detected on path. Replanning...'')
                     ''Obstacle detected on path. Recalculating route.''"
  define dest where "dest = (if returning s2 then sim_start s2 else sim_goal s2)"
  have "wf_sim s2" using assms by (simp add: s2_def wf_sim_def speak_def add_log_def marks_def)
  from wf_sim_current_grid [OF this] obtain g where g: "current_grid s2 = Inr g" by blast
  have wfg: "wf_grid g" using \<open>wf_sim s2\<close> g by (rule current_grid_wf)
  have eq: "replan s = (case compute_path s2 (robot_cell s2) dest of
           None \<Rightarrow> None
         | Some (Inl e) \<Rightarrow> Some (Inl e)
         | Some (Inr (s3, r)) \<Rightarrow>
             (case r of
                Some (c # cs) \<Rightarrow>
                  Some (Inr (add_log (s3\<lparr>sim_path := c # cs, path_index := 0\<rparr>)
                                     ''New path found, resuming.''))
              | _ \<Rightarrow>
                  Some (Inr ((speak (add_log s3 ''No alternative path found.'')
                                    ''No alternative path found. Aborting navigation.'')
                               \<lparr>moving := False\<rparr>))))"
    unfolding replan_def Let_def s2_def [symmetric] dest_def ..
  obtain r where "astar g (robot_cell s2) dest = Some (Inr r)"
    using astar_total [OF wfg, of "robot_cell s2" dest] by metis
  then have "\<exists>s3. compute_path s2 (robot_cell s2) dest = Some (Inr (s3, r))"
    using g by (simp add: compute_path_def)
  then show ?thesis unfolding eq by (auto split: option.splits list.splits)
qed

lemma arrive_returns:
  assumes wf: "wf_sim s" and op: "on_path s"
  shows "\<exists>s'. arrive s = Some (Inr s')"
proof -
  have idx: "0 \<le> path_index s" "path_index s < int (length (sim_path s))"
    and cells: "\<And>c. c \<in> set (sim_path s) \<Longrightarrow> in_bounds (sim_grid s) c"
    using op by (simp_all add: on_path_def list_all_iff)
  define tgt where "tgt = sim_path s ! nat (path_index s)"
  have t: "py_get (sim_path s) (path_index s) = Inr tgt"
    unfolding tgt_def using idx by (rule py_get_nonneg)
  define s1 where "s1 = s\<lparr>robot_cell := tgt, robot_pos := cell_center s tgt,
      path_index := path_index s + 1\<rparr>"
  have f: "path_index s1 = path_index s + 1" "sim_path s1 = sim_path s" "dynamic s1 = dynamic s"
    "sim_grid s1 = sim_grid s" "detected_cells s1 = detected_cells s"
    by (simp_all add: s1_def)
  have wf1: "wf_sim s1" using wf by (simp add: s1_def wf_sim_def)
  from replan_returns [OF wf1] obtain s2 where s2: "replan s1 = Some (Inr s2)" by blast
  have eq0: "arrive s =
     (if path_index s1 < int (length (sim_path s1)) then
            (case py_get (sim_path s1) (path_index s1) of
               Inl e \<Rightarrow> Some (Inl e)
             | Inr nxt \<Rightarrow>
                 if nxt \<in> dynamic s1 then replan s1
                 else
                   (case grid_at (sim_grid s1) (fst nxt) (snd nxt) of
                      Inl e \<Rightarrow> Some (Inl e)
                    | Inr v \<Rightarrow>
                        if v = 1 \<or> nxt \<in> detected_cells s1 then replan s1
                        else Some (Inr s1)))
          else Some (Inr s1))"
    unfolding arrive_def t s1_def Let_def by simp
  note eq = eq0 [unfolded f]
  show ?thesis
  proof (cases "path_index s + 1 < int (length (sim_path s))")
    case False
    then show ?thesis unfolding eq by simp
  next
    case True
    define nxt where "nxt = sim_path s ! nat (path_index s + 1)"
    have n: "py_get (sim_path s) (path_index s + 1) = Inr nxt"
      unfolding nxt_def using idx(1) True by (intro py_get_nonneg) simp_all
    have "nat (path_index s + 1) < length (sim_path s)" using True idx(1) by linarith
    then have "nxt \<in> set (sim_path s)" unfolding nxt_def by (rule nth_mem)
    then have ib: "in_bounds (sim_grid s) nxt" by (rule cells)
    have wfg: "wf_grid (sim_grid s)" using wf by (simp add: wf_sim_def)
    have "\<exists>v. grid_at (sim_grid s) (fst nxt) (snd nxt) = Inr v"
      using wf_grid_at [OF wfg, of "fst nxt" "snd nxt"] ib by (simp add: in_bounds_def)
    then obtain v where v: "grid_at (sim_grid s) (fst nxt) (snd nxt) = Inr v" by blast
    show ?thesis using True s2 v by (simp add: eq n)
  qed
qed

text \<open>
  Where \<open>spawn_dynamic\<close> puts obstacles and where the mover may put them: inside the
  configured bounds, on a cell that holds \<open>0\<close> in the static grid, and on neither the
  start nor the goal cell.
\<close>

definition placeable :: "navsim \<Rightarrow> cell \<Rightarrow> bool" where
  "placeable s c \<longleftrightarrow>
     0 \<le> fst c \<and> fst c < cfg_rows s \<and> 0 \<le> snd c \<and> snd c < cfg_cols s \<and>
     grid_at (sim_grid s) (fst c) (snd c) = Inr 0 \<and> c \<noteq> sim_start s \<and> c \<noteq> sim_goal s"

definition placed :: "navsim \<Rightarrow> bool" where
  "placed s \<longleftrightarrow> (\<forall>c \<in> dynamic s. placeable s c)"

lemma try_dirs_Some:
  "try_dirs s c ds = Inr (Some n) \<Longrightarrow>
   placeable s n \<and> n \<notin> dynamic s \<and> (\<exists>d \<in> set ds. n = (fst c + fst d, snd c + snd d))"
proof (induction ds)
  case Nil
  then show ?case by simp
next
  case (Cons d ds)
  let ?n = "(fst c + fst d, snd c + snd d)"
  show ?case
  proof (cases "try_dirs s c ds = Inr (Some n)")
    case True
    from Cons.IH [OF this] show ?thesis by auto
  next
    case False
    from Cons.prems False have inb: "0 \<le> fst ?n \<and> fst ?n < cfg_rows s \<and> 0 \<le> snd ?n \<and> snd ?n < cfg_cols s"
      by (auto simp: Let_def split: if_splits)
    from Cons.prems False inb obtain v where v: "grid_at (sim_grid s) (fst ?n) (snd ?n) = Inr v"
      by (auto simp: Let_def split: sum.splits)
    from Cons.prems False inb v have
      "v = 0 \<and> ?n \<notin> dynamic s \<and> ?n \<noteq> sim_start s \<and> ?n \<noteq> sim_goal s \<and> n = ?n"
      by (auto simp: Let_def split: if_splits)
    then show ?thesis using inb v by (auto simp: placeable_def)
  qed
qed

lemma move_one_cases:
  assumes "move_one s dr c = Inr n"
  shows "n = c \<or> placeable s n \<and> n \<notin> dynamic s \<and>
           (\<exists>d \<in> set (snd dr). n = (fst c + fst d, snd c + snd d))"
proof (cases "fst dr")
  case False
  then show ?thesis using assms by (simp add: move_one_def)
next
  case True
  show ?thesis
  proof (cases "try_dirs s c (snd dr)")
    case (Inl e)
    then show ?thesis using assms True by (simp add: move_one_def)
  next
    case (Inr r)
    show ?thesis
    proof (cases r)
      case None
      then show ?thesis using assms True Inr by (simp add: move_one_def)
    next
      case (Some m)
      then have "n = m" using assms True Inr by (simp add: move_one_def)
      then show ?thesis using try_dirs_Some [of s c "snd dr" m] Inr Some by simp
    qed
  qed
qed

lemma move_dynamic_cases:
  assumes "move_dynamic s draw = Inr s'"
  shows "s' = s\<lparr>dynamic := (\<lambda>c. projr (move_one s (draw c) c)) ` dynamic s\<rparr> \<and>
         (\<forall>c \<in> dynamic s. \<exists>n. move_one s (draw c) c = Inr n)"
proof -
  have ne: "\<not> (\<exists>c \<in> dynamic s. isl (move_one s (draw c) c))"
    using assms by (auto simp: move_dynamic_def split: if_splits)
  then have "\<forall>c \<in> dynamic s. \<exists>n. move_one s (draw c) c = Inr n"
    by (metis sum.collapse(2))
  moreover have "s' = s\<lparr>dynamic := (\<lambda>c. projr (move_one s (draw c) c)) ` dynamic s\<rparr>"
    using assms ne by (simp add: move_dynamic_def split: if_splits)
  ultimately show ?thesis by blast
qed

lemma move_dynamic_placed:
  assumes pl: "placed s" and fin: "finite (dynamic s)" and mv: "move_dynamic s draw = Inr s'"
  shows "placed s' \<and> card (dynamic s') \<le> card (dynamic s) \<and>
         (\<forall>n \<in> dynamic s'. n \<in> dynamic s \<or>
            (\<exists>c \<in> dynamic s. \<exists>d \<in> set (snd (draw c)). n = (fst c + fst d, snd c + snd d)))"
proof -
  from move_dynamic_cases [OF mv] have
    s': "s' = s\<lparr>dynamic := (\<lambda>c. projr (move_one s (draw c) c)) ` dynamic s\<rparr>" and
    ok: "\<forall>c \<in> dynamic s. \<exists>n. move_one s (draw c) c = Inr n" by blast+
  have dyn: "dynamic s' = (\<lambda>c. projr (move_one s (draw c) c)) ` dynamic s" using s' by simp
  have same: "placeable s' = placeable s" using s' by (simp add: placeable_def fun_eq_iff)
  have each: "n = c \<or> placeable s n \<and> n \<notin> dynamic s \<and>
           (\<exists>d \<in> set (snd (draw c)). n = (fst c + fst d, snd c + snd d))"
    if "c \<in> dynamic s" "n = projr (move_one s (draw c) c)" for c n
  proof -
    from ok that(1) obtain m where m: "move_one s (draw c) c = Inr m" by blast
    then have "n = m" using that(2) by simp
    then show ?thesis using move_one_cases [OF m] by simp
  qed
  have "placed s'"
    unfolding placed_def same dyn
  proof
    fix n assume "n \<in> (\<lambda>c. projr (move_one s (draw c) c)) ` dynamic s"
    then obtain c where c: "c \<in> dynamic s" "n = projr (move_one s (draw c) c)" by blast
    from each [OF c] c(1) pl show "placeable s n" unfolding placed_def by blast
  qed
  moreover have "card (dynamic s') \<le> card (dynamic s)" unfolding dyn using fin by (rule card_image_le)
  moreover have "\<forall>n \<in> dynamic s'. n \<in> dynamic s \<or>
            (\<exists>c \<in> dynamic s. \<exists>d \<in> set (snd (draw c)). n = (fst c + fst d, snd c + snd d))"
    unfolding dyn
  proof
    fix n assume "n \<in> (\<lambda>c. projr (move_one s (draw c) c)) ` dynamic s"
    then obtain c where c: "c \<in> dynamic s" "n = projr (move_one s (draw c) c)" by blast
    from each [OF c] c(1)
    show "n \<in> dynamic s \<or>
            (\<exists>c \<in> dynamic s. \<exists>d \<in> set (snd (draw c)). n = (fst c + fst d, snd c + snd d))"
      by blast
  qed
  ultimately show ?thesis by blast
qed

text \<open>What the scan tests at a cell: a wall of the static grid or a dynamic obstacle.\<close>

definition occupied :: "navsim \<Rightarrow> cell \<Rightarrow> bool" where
  "occupied s c \<longleftrightarrow> grid_at (sim_grid s) (fst c) (snd c) = Inr 1 \<or> c \<in> dynamic s"

definition inside :: "navsim \<Rightarrow> cell \<Rightarrow> bool" where
  "inside s c \<longleftrightarrow> 0 \<le> fst c \<and> fst c < cfg_rows s \<and> 0 \<le> snd c \<and> snd c < cfg_cols s"

text \<open>The cell a beam ends on, when it ends on one.\<close>

definition beam_hit :: "navsim \<Rightarrow> (int \<Rightarrow> cell) \<Rightarrow> int list \<Rightarrow> cell option" where
  "beam_hit s cell_at ds = (case beam s cell_at ds of Inl e \<Rightarrow> None | Inr (sensors, hit) \<Rightarrow> hit)"

lemma beam_first:
  assumes "beam s f ds = Inr (sensors, Some c)"
  shows "\<exists>pre d post. ds = pre @ d # post \<and> c = f d \<and> inside s c \<and> occupied s c \<and>
           (\<forall>d' \<in> set pre. inside s (f d') \<and> \<not> occupied s (f d'))"
  using assms
proof (induction ds arbitrary: sensors)
  case Nil
  then show ?case by simp
next
  case (Cons d ds)
  have ins: "inside s (f d)" using Cons.prems by (auto simp: inside_def Let_def split: if_splits)
  then have inb: "0 \<le> fst (f d) \<and> fst (f d) < cfg_rows s \<and> 0 \<le> snd (f d) \<and> snd (f d) < cfg_cols s"
    by (simp add: inside_def)
  from Cons.prems inb obtain v where v: "grid_at (sim_grid s) (fst (f d)) (snd (f d)) = Inr v"
    by (auto simp: Let_def split: sum.splits)
  show ?case
  proof (cases "v = 1 \<or> f d \<in> dynamic s")
    case True
    then have "c = f d" using Cons.prems inb v by (auto simp: Let_def)
    moreover have "occupied s (f d)" using True v by (auto simp: occupied_def)
    ultimately show ?thesis using ins by (intro exI [of _ "[]"] exI [of _ d] exI [of _ ds]) simp
  next
    case False
    then have nocc: "\<not> occupied s (f d)" using v by (auto simp: occupied_def)
    from Cons.prems inb v False obtain sn where "beam s f ds = Inr (sn, Some c)"
      by (auto simp: Let_def split: sum.splits)
    from Cons.IH [OF this] obtain pre d' post where
      p: "ds = pre @ d' # post" "c = f d'" "inside s c" "occupied s c"
         "\<forall>x \<in> set pre. inside s (f x) \<and> \<not> occupied s (f x)" by blast
    show ?thesis
      using p ins nocc by (intro exI [of _ "d # pre"] exI [of _ d'] exI [of _ post]) simp
  qed
qed

lemma sweep_detected:
  assumes "sweep s cast as = Inr (sensors, detected)"
  shows "detected = {c. \<exists>a \<in> set as. beam_hit s (cast (a + last_lidar_angle s)) lidar_steps = Some c}"
  using assms
proof (induction as arbitrary: sensors detected)
  case Nil
  then show ?case by simp
next
  case (Cons a as)
  from Cons.prems obtain sn hit sn' det' where
    b: "beam s (cast (a + last_lidar_angle s)) lidar_steps = Inr (sn, hit)" and
    sw: "sweep s cast as = Inr (sn', det')" and
    d: "detected = (case hit of None \<Rightarrow> det' | Some c \<Rightarrow> insert c det')"
    by (auto split: sum.splits)
  have h: "beam_hit s (cast (a + last_lidar_angle s)) lidar_steps = hit" using b by (simp add: beam_hit_def)
  from Cons.IH [OF sw] have
    "det' = {c. \<exists>a \<in> set as. beam_hit s (cast (a + last_lidar_angle s)) lidar_steps = Some c}" .
  then show ?case using d h by (cases hit) auto
qed

lemma beam_hit_first:
  assumes "beam_hit s f ds = Some c"
  shows "\<exists>pre d post. ds = pre @ d # post \<and> c = f d \<and> inside s c \<and> occupied s c \<and>
           (\<forall>d' \<in> set pre. inside s (f d') \<and> \<not> occupied s (f d'))"
proof -
  from assms obtain sensors where "beam s f ds = Inr (sensors, Some c)"
    by (auto simp: beam_hit_def split: sum.splits)
  then show ?thesis by (rule beam_first)
qed

lemma lidar_scan_detected:
  assumes "lidar_scan s cast = Inr (s', sensors, detected)"
  shows "detected_cells s' = detected \<and>
         detected = {c. \<exists>a \<in> set lidar_angles.
                        beam_hit s (cast (a + last_lidar_angle s)) lidar_steps = Some c}"
proof -
  from assms obtain sn where sw: "sweep s cast lidar_angles = Inr (sn, detected)" and
    "s' = s\<lparr>last_lidar_angle := (last_lidar_angle s + 6) mod 360, detected_cells := detected\<rparr>"
    by (auto simp: lidar_scan_def split: sum.splits)
  then show ?thesis using sweep_detected [OF sw] by simp
qed

text \<open>
  The end point that a beam records for a cell, and the steps at which it records one:
  the steps before the beam leaves the grid, up to and including the first one at an
  occupied cell.
\<close>

definition ray_end :: "navsim \<Rightarrow> cell \<Rightarrow> sensor" where
  "ray_end s c = (robot_pos s, (snd c * cfg_cell s + cfg_cell s div 2,
                                fst c * cfg_cell s + cfg_cell s div 2))"

definition walked :: "navsim \<Rightarrow> (int \<Rightarrow> cell) \<Rightarrow> int list \<Rightarrow> int list" where
  "walked s f ds =
     (let cov = takeWhile (\<lambda>d. inside s (f d)) ds;
          clear = takeWhile (\<lambda>d. \<not> occupied s (f d)) cov
      in clear @ take 1 (drop (length clear) cov))"

lemma walked_Nil: "walked s f [] = []"
  by (simp add: walked_def)

lemma walked_outside: "\<not> inside s (f d) \<Longrightarrow> walked s f (d # ds) = []"
  by (simp add: walked_def)

lemma walked_hit: "inside s (f d) \<Longrightarrow> occupied s (f d) \<Longrightarrow> walked s f (d # ds) = [d]"
  by (simp add: walked_def)

lemma walked_clear:
  "inside s (f d) \<Longrightarrow> \<not> occupied s (f d) \<Longrightarrow> walked s f (d # ds) = d # walked s f ds"
  by (simp add: walked_def Let_def)

lemma beam_step:
  "beam s f (d # ds) =
     (if inside s (f d) then
        (case grid_at (sim_grid s) (fst (f d)) (snd (f d)) of
           Inl e \<Rightarrow> Inl e
         | Inr v \<Rightarrow>
             if v = 1 \<or> f d \<in> dynamic s then Inr ([ray_end s (f d)], Some (f d))
             else (case beam s f ds of
                     Inl e \<Rightarrow> Inl e
                   | Inr (sensors, hit) \<Rightarrow> Inr (ray_end s (f d) # sensors, hit)))
      else Inr ([], None))"
  unfolding ray_end_def inside_def
  by (cases "grid_at (sim_grid s) (fst (f d)) (snd (f d))"; cases "beam s f ds")
     (auto simp: Let_def)

lemma beam_exact:
  assumes "beam s f ds = Inr (sensors, hit)"
  shows "sensors = map (\<lambda>d. ray_end s (f d)) (walked s f ds) \<and>
         (case hit of
            None \<Rightarrow> \<forall>d \<in> set (walked s f ds). \<not> occupied s (f d)
          | Some c \<Rightarrow> walked s f ds \<noteq> [] \<and> c = f (last (walked s f ds)) \<and> occupied s c)"
  using assms
proof (induction ds arbitrary: sensors hit)
  case Nil
  then show ?case by (simp add: walked_Nil)
next
  case (Cons d ds)
  show ?case
  proof (cases "inside s (f d)")
    case False
    then show ?thesis using Cons.prems by (simp add: beam_step walked_outside del: beam.simps)
  next
    case True
    from Cons.prems True obtain v where v: "grid_at (sim_grid s) (fst (f d)) (snd (f d)) = Inr v"
      by (cases "grid_at (sim_grid s) (fst (f d)) (snd (f d))") (simp_all add: beam_step del: beam.simps)
    have occ: "occupied s (f d) \<longleftrightarrow> v = 1 \<or> f d \<in> dynamic s" by (simp add: occupied_def v)
    show ?thesis
    proof (cases "occupied s (f d)")
      case o: True
      then have "sensors = [ray_end s (f d)]" "hit = Some (f d)"
        using Cons.prems True v occ by (simp_all add: beam_step del: beam.simps)
      then show ?thesis using o walked_hit [of s f d ds, OF True o] by simp
    next
      case o: False
      then obtain sn where r: "beam s f ds = Inr (sn, hit)" "sensors = ray_end s (f d) # sn"
        using Cons.prems True v occ by (auto simp: beam_step simp del: beam.simps split: sum.splits)
      from Cons.IH [OF r(1)] r(2) o walked_clear [of s f d ds, OF True o] show ?thesis
        by (auto split: option.splits)
    qed
  qed
qed

lemma beam_returns:
  assumes "wf_sim s"
  shows "\<exists>r. beam s f ds = Inr r"
proof (induction ds)
  case Nil
  show ?case by simp
next
  case (Cons d ds)
  show ?case
  proof (cases "inside s (f d)")
    case False
    then show ?thesis by (simp add: beam_step del: beam.simps)
  next
    case True
    have wfg: "wf_grid (sim_grid s)" and r: "cfg_rows s = int (length (sim_grid s))"
      and c: "cfg_cols s = int (length (hd (sim_grid s)))"
      using assms by (simp_all add: wf_sim_def)
    have "grid_at (sim_grid s) (fst (f d)) (snd (f d))
        = Inr (sim_grid s ! nat (fst (f d)) ! nat (snd (f d)))"
      using True unfolding inside_def r c by (intro wf_grid_at [OF wfg]) simp_all
    then show ?thesis using Cons.IH True by (auto simp: beam_step simp del: beam.simps split: sum.splits)
  qed
qed

lemma sweep_returns:
  assumes "wf_sim s"
  shows "\<exists>r. sweep s cast as = Inr r"
proof (induction as)
  case Nil
  show ?case by simp
next
  case (Cons a as)
  from beam_returns [OF assms] obtain b where
    "beam s (cast (a + last_lidar_angle s)) lidar_steps = Inr b" by blast
  then show ?case using Cons.IH by (auto split: sum.splits prod.splits)
qed

lemma lidar_scan_returns:
  assumes "wf_sim s"
  shows "\<exists>s' sensors detected. lidar_scan s cast = Inr (s', sensors, detected)"
proof -
  from sweep_returns [OF assms] obtain sn det where "sweep s cast lidar_angles = Inr (sn, det)"
    by fastforce
  then show ?thesis by (simp add: lidar_scan_def)
qed

lemma sweep_exact:
  assumes "sweep s cast as = Inr (sensors, detected)"
  shows "sensors = concat (map (\<lambda>a. map (\<lambda>d. ray_end s (cast (a + last_lidar_angle s) d))
                                      (walked s (cast (a + last_lidar_angle s)) lidar_steps)) as) \<and>
         (\<forall>a \<in> set as. \<exists>sn. beam s (cast (a + last_lidar_angle s)) lidar_steps
                               = Inr (sn, beam_hit s (cast (a + last_lidar_angle s)) lidar_steps))"
  using assms
proof (induction as arbitrary: sensors detected)
  case Nil
  then show ?case by simp
next
  case (Cons a as)
  from Cons.prems obtain sn hit sn' det' where
    b: "beam s (cast (a + last_lidar_angle s)) lidar_steps = Inr (sn, hit)" and
    sw: "sweep s cast as = Inr (sn', det')" and
    d: "sensors = sn @ sn'"
    by (auto split: sum.splits prod.splits)
  have h: "beam_hit s (cast (a + last_lidar_angle s)) lidar_steps = hit"
    by (simp add: beam_hit_def b)
  from beam_exact [OF b] have "sn = map (\<lambda>d. ray_end s (cast (a + last_lidar_angle s) d))
                                      (walked s (cast (a + last_lidar_angle s)) lidar_steps)"
    by blast
  then show ?case using Cons.IH [OF sw] d b h by simp
qed

text \<open>A beam that covers an occupied cell, after free cells only, ends on that cell.\<close>

lemma walked_first:
  assumes "ds = pre @ d # post" "\<forall>d' \<in> set pre. inside s (f d') \<and> \<not> occupied s (f d')"
    "inside s (f d)" "occupied s (f d)"
  shows "walked s f ds = pre @ [d]"
  using assms(1,2)
proof (induction pre arbitrary: ds)
  case Nil
  then show ?case using assms(3,4) by (simp add: walked_hit)
next
  case (Cons p pre)
  then show ?case by (simp add: walked_clear)
qed

lemma beam_complete:
  assumes b: "beam s f ds = Inr (sensors, hit)"
    and "ds = pre @ d # post" "\<forall>d' \<in> set pre. inside s (f d') \<and> \<not> occupied s (f d')"
    "inside s (f d)" "occupied s (f d)"
  shows "hit = Some (f d) \<and> sensors = map (\<lambda>d. ray_end s (f d)) (pre @ [d])"
proof -
  have w: "walked s f ds = pre @ [d]" using assms(2-5) by (rule walked_first)
  from beam_exact [OF b] w assms(5) show ?thesis by (cases hit) auto
qed














section \<open>Correctness of a\_star\<close>

text \<open>
  The cells that \<open>a_star\<close> may enter, and what it means that the two planners are given
  the same blocking predicate.
\<close>

definition passable :: "int \<Rightarrow> int \<Rightarrow> cell set \<Rightarrow> cell \<Rightarrow> bool" where
  "passable w h obstacles n \<longleftrightarrow>
     0 \<le> fst n \<and> fst n < w \<and> 0 \<le> snd n \<and> snd n < h \<and> n \<notin> obstacles"

definition same_blocking :: "grid \<Rightarrow> int \<Rightarrow> int \<Rightarrow> cell set \<Rightarrow> bool" where
  "same_blocking grid w h obstacles \<longleftrightarrow> (\<forall>n. passable w h obstacles n = free grid n)"

text \<open>
  \<open>min\<close> returns a member of the set of least keys; the set is finite and not empty
  when it is called.
\<close>

definition chooser :: "(nat \<Rightarrow> cell set \<Rightarrow> cell) \<Rightarrow> bool" where
  "chooser pick \<longleftrightarrow> (\<forall>k M. finite M \<and> M \<noteq> {} \<longrightarrow> pick k M \<in> M)"

text \<open>
  The invariant of \<open>a_star\<close>. Its \<open>came_from\<close> and \<open>g\<close> satisfy the invariant of
  the other planner's \<open>came\<close> and \<open>g\<close>; the cells with a cost that are not open are
  the closed ones, and they play the part of the visited cells.
\<close>

definition tree_of :: "a_state \<Rightarrow> astar_state" where
  "tree_of st = \<lparr>openq = [], came = came_from st, gcost = g_score st, visited = {}\<rparr>"

definition closed :: "a_state \<Rightarrow> cell set" where
  "closed st = dom (g_score st) - open_set st"

definition a_inv :: "grid \<Rightarrow> cell \<Rightarrow> cell \<Rightarrow> cell set \<Rightarrow> a_state \<Rightarrow> bool" where
  "a_inv grid start goal X st \<longleftrightarrow>
     tree_inv grid start (tree_of st) \<and>
     finite (open_set st) \<and> open_set st \<subseteq> dom (g_score st) \<and>
     (\<forall>n. f_score st n = map_option (\<lambda>gv. gv + heuristic n goal) (g_score st n)) \<and>
     (\<forall>v w. v \<in> closed st - X \<longrightarrow> adjacent v w \<longrightarrow> free grid w \<longrightarrow>
        (\<exists>gv gw. g_score st v = Some gv \<and> g_score st w = Some gw \<and> gw \<le> gv + 1)) \<and>
     (\<forall>v k. v \<in> closed st \<longrightarrow> reach grid start k v \<longrightarrow>
        (\<exists>gv. g_score st v = Some gv \<and> gv \<le> int k)) \<and>
     (\<forall>n gv. g_score st n = Some gv \<longrightarrow> (\<exists>k. reach grid start k n \<and> int k = gv)) \<and>
     goal \<notin> closed st"

lemma a_inv_tree: "a_inv grid start goal X st \<Longrightarrow> tree_inv grid start (tree_of st)"
  unfolding a_inv_def by blast

lemma a_inv_finite: "a_inv grid start goal X st \<Longrightarrow> finite (open_set st)"
  unfolding a_inv_def by blast

lemma a_inv_open: "a_inv grid start goal X st \<Longrightarrow> n \<in> open_set st \<Longrightarrow> \<exists>gv. g_score st n = Some gv"
  unfolding a_inv_def by blast

lemma a_inv_f:
  "a_inv grid start goal X st \<Longrightarrow> f_score st n = map_option (\<lambda>gv. gv + heuristic n goal) (g_score st n)"
  unfolding a_inv_def by blast

lemma a_inv_relaxed:
  "a_inv grid start goal X st \<Longrightarrow> v \<in> closed st \<Longrightarrow> v \<notin> X \<Longrightarrow> adjacent v w \<Longrightarrow> free grid w \<Longrightarrow>
   \<exists>gv gw. g_score st v = Some gv \<and> g_score st w = Some gw \<and> gw \<le> gv + 1"
  unfolding a_inv_def by blast

lemma a_inv_closed:
  "a_inv grid start goal X st \<Longrightarrow> v \<in> closed st \<Longrightarrow> reach grid start k v \<Longrightarrow>
   \<exists>gv. g_score st v = Some gv \<and> gv \<le> int k"
  unfolding a_inv_def by blast

lemma a_inv_real:
  "a_inv grid start goal X st \<Longrightarrow> g_score st n = Some gv \<Longrightarrow> \<exists>k. reach grid start k n \<and> int k = gv"
  unfolding a_inv_def by blast

lemma a_inv_goal: "a_inv grid start goal X st \<Longrightarrow> goal \<notin> closed st"
  unfolding a_inv_def by blast

lemma a_inv_start: "a_inv grid start goal X st \<Longrightarrow> g_score st start = Some 0"
  using tree_inv_start [OF a_inv_tree] by (simp add: tree_of_def)

lemma a_inv_nonneg: "a_inv grid start goal X st \<Longrightarrow> g_score st n = Some gv \<Longrightarrow> 0 \<le> gv"
  using tree_inv_nonneg [OF a_inv_tree, of grid start goal X st n gv] by (simp add: tree_of_def)

lemma a_inv_dom_free:
  assumes "a_inv grid start goal X st" "g_score st n = Some gv"
  shows "n = start \<or> free grid n"
proof (cases "n = start")
  case False
  have t: "tree_inv grid start (tree_of st)" using assms(1) by (rule a_inv_tree)
  have "gcost (tree_of st) n = Some gv" using assms(2) by (simp add: tree_of_def)
  from tree_inv_root [OF t this False] obtain p where "came (tree_of st) n = Some p" by blast
  from tree_inv_came [OF t this] show ?thesis by blast
qed simp

lemma a_frontier:
  assumes inv: "a_inv grid start goal {} st" and r: "reach grid start k n"
  shows "n \<in> closed st \<or>
         (\<exists>m gm. m \<in> open_set st \<and> g_score st m = Some gm \<and>
                  gm + heuristic m goal \<le> int k + heuristic n goal)"
  using r
proof (induction rule: reach.induct)
  case reach0
  show ?case
  proof (cases "start \<in> closed st")
    case False
    then have "start \<in> open_set st" using a_inv_start [OF inv] by (auto simp: closed_def)
    moreover have "0 + heuristic start goal \<le> int 0 + heuristic start goal" by simp
    ultimately show ?thesis using a_inv_start [OF inv] by blast
  qed simp
next
  case (reachS k u v)
  show ?case
  proof (cases "v \<in> closed st")
    case vv: False
    from reachS.IH show ?thesis
    proof
      assume uv: "u \<in> closed st"
      from a_inv_closed [OF inv uv reachS.hyps(1)] obtain gu where
        gu: "g_score st u = Some gu" "gu \<le> int k" by blast
      from a_inv_relaxed [OF inv uv _ reachS.hyps(2,3)] gu obtain gw where
        gw: "g_score st v = Some gw" "gw \<le> gu + 1" by auto
      have "v \<in> open_set st" using vv gw(1) by (auto simp: closed_def)
      moreover have "gw + heuristic v goal \<le> int (Suc k) + heuristic v goal" using gw(2) gu(2) by simp
      ultimately show ?thesis using gw(1) by blast
    next
      assume "\<exists>m gm. m \<in> open_set st \<and> g_score st m = Some gm \<and>
                  gm + heuristic m goal \<le> int k + heuristic u goal"
      then obtain m gm where e: "m \<in> open_set st" "g_score st m = Some gm"
        "gm + heuristic m goal \<le> int k + heuristic u goal" by blast
      have "gm + heuristic m goal \<le> int (Suc k) + heuristic v goal"
        using e(3) adjacent_heuristic [OF reachS.hyps(2), of goal] by simp
      then show ?thesis using e(1,2) by blast
    qed
  qed simp
qed


lemma tree_inv_update:
  assumes inv: "tree_inv grid start t"
    and gc: "gcost t cur = Some gc"
    and adj: "adjacent cur nb" and fr: "free grid nb"
    and less: "\<And>x. gcost t nb = Some x \<Longrightarrow> gc + 1 < x"
    and cm: "came t' = (came t)(nb \<mapsto> cur)" and gm: "gcost t' = (gcost t)(nb \<mapsto> gc + 1)"
    and oq: "\<And>e. e \<in> set (openq t') \<Longrightarrow> e \<in> set (openq t) \<or> snd (snd e) = nb"
  shows "tree_inv grid start t'"
proof -
  have gc0: "0 \<le> gc" using tree_inv_nonneg [OF inv gc] .
  have s0: "gcost t start = Some 0" using inv by (rule tree_inv_start)
  have nb_start: "nb \<noteq> start" using less [of 0] s0 gc0 by auto
  have cur_nb: "cur \<noteq> nb" using adj by (auto simp: adjacent_def moves4_def)
  show ?thesis
    unfolding tree_inv_def
  proof (intro conjI allI impI ballI)
    show "gcost t' start = Some 0" using s0 nb_start gm by simp
    show "came t' start = None" using tree_inv_came_start [OF inv] nb_start cm by simp
  next
    fix n gn assume a: "gcost t' n = Some gn"
    show "0 \<le> gn"
    proof (cases "n = nb")
      case True then show ?thesis using a gm gc0 by simp
    next
      case False then show ?thesis using a gm tree_inv_nonneg [OF inv, of n gn] by simp
    qed
    show "n = start \<or> came t' n \<noteq> None"
    proof (cases "n = nb")
      case True then show ?thesis using cm by simp
    next
      case False then show ?thesis using a gm cm tree_inv_root [OF inv, of n gn] by auto
    qed
  next
    fix n p assume c: "came t' n = Some p"
    show "adjacent p n"
    proof (cases "n = nb")
      case True then show ?thesis using c cm adj by simp
    next
      case False then show ?thesis using c cm tree_inv_came [OF inv, of n p] by simp
    qed
    show "free grid n"
    proof (cases "n = nb")
      case True then show ?thesis using fr by simp
    next
      case False then show ?thesis using c cm tree_inv_came [OF inv, of n p] by simp
    qed
    show "\<exists>gn gp. gcost t' n = Some gn \<and> gcost t' p = Some gp \<and> gp < gn"
    proof (cases "n = nb")
      case True
      then have "p = cur" using c cm by simp
      then show ?thesis using True gc gm cur_nb by simp
    next
      case False
      then have "came t n = Some p" using c cm by simp
      then obtain gn gp where g: "gcost t n = Some gn" "gcost t p = Some gp" "gp < gn"
        using tree_inv_came [OF inv] by blast
      show ?thesis
      proof (cases "p = nb")
        case True
        then show ?thesis using g less [of gp] False gm by auto
      next
        case False
        then show ?thesis using g \<open>n \<noteq> nb\<close> gm by auto
      qed
    qed
  next
    fix e assume "e \<in> set (openq t')"
    from oq [OF this] show "gcost t' (snd (snd e)) \<noteq> None"
      using tree_inv_openq [OF inv, of e] gm by auto
  qed
qed

lemma improve_cases:
  assumes "improve obstacles goal cur nb st = Inr st'"
  obtains (blocked) "nb \<in> obstacles" "st' = st"
  | (keep) gc where "nb \<notin> obstacles" "g_score st cur = Some gc"
      "\<not> below (gc + 1) (g_score st nb)" "st' = st"
  | (upd) gc where "nb \<notin> obstacles" "g_score st cur = Some gc" "below (gc + 1) (g_score st nb)"
      "st' = st\<lparr>came_from := (came_from st)(nb \<mapsto> cur),
                g_score := (g_score st)(nb \<mapsto> gc + 1),
                f_score := (f_score st)(nb \<mapsto> gc + 1 + heuristic nb goal),
                open_set := insert nb (open_set st)\<rparr>"
proof (cases "nb \<in> obstacles")
  case True
  then have "st' = st" using assms by (simp add: improve_def)
  with True show ?thesis by (rule blocked)
next
  case nob: False
  show ?thesis
  proof (cases "g_score st cur")
    case None
    then show ?thesis using assms nob by (simp add: improve_def)
  next
    case (Some gc)
    show ?thesis
    proof (cases "below (gc + 1) (g_score st nb)")
      case False
      then have "st' = st" using assms nob Some by (simp add: improve_def Let_def)
      with nob Some False show ?thesis by (rule keep)
    next
      case True
      then have "st' = st\<lparr>came_from := (came_from st)(nb \<mapsto> cur),
                g_score := (g_score st)(nb \<mapsto> gc + 1),
                f_score := (f_score st)(nb \<mapsto> gc + 1 + heuristic nb goal),
                open_set := insert nb (open_set st)\<rparr>"
        using assms nob Some by (auto simp: improve_def Let_def)
      with nob Some True show ?thesis by (rule upd)
    qed
  qed
qed

lemma neighbors_iff:
  "nb \<in> set (neighbors cur w h) \<longleftrightarrow>
     adjacent cur nb \<and> 0 \<le> fst nb \<and> fst nb < w \<and> 0 \<le> snd nb \<and> snd nb < h"
proof -
  have "neighbors cur w h =
      filter (\<lambda>n. 0 \<le> fst n \<and> fst n < w \<and> 0 \<le> snd n \<and> snd n < h)
        (map (\<lambda>d. (fst cur + fst d, snd cur + snd d)) moves4)"
    by (simp add: neighbors_def moves4_def)
  then show ?thesis by (auto simp: adjacent_cases)
qed

lemma neighbors_free:
  assumes "same_blocking grid w h obstacles"
  shows "nb \<in> set (neighbors cur w h) \<and> nb \<notin> obstacles \<longleftrightarrow> adjacent cur nb \<and> free grid nb"
proof -
  have "passable w h obstacles nb = free grid nb" using assms unfolding same_blocking_def by blast
  then show ?thesis unfolding neighbors_iff passable_def by blast
qed


lemma improve_a_inv:
  assumes inv: "a_inv grid start goal {cur} st"
    and cc: "cur \<in> closed st" and gc: "g_score st cur = Some gc"
    and nb: "nb \<in> set (neighbors cur w h)" and sb: "same_blocking grid w h obstacles"
    and r: "improve obstacles goal cur nb st = Inr st'"
  shows "a_inv grid start goal {cur} st' \<and> g_score st' cur = Some gc \<and> closed st' = closed st \<and>
         (free grid nb \<longrightarrow> (\<exists>gw. g_score st' nb = Some gw \<and> gw \<le> gc + 1)) \<and>
         (\<forall>n gv. g_score st n = Some gv \<longrightarrow> (\<exists>gv'. g_score st' n = Some gv' \<and> gv' \<le> gv))"
  using r
proof (cases rule: improve_cases)
  case blocked
  then have "\<not> free grid nb"
    using neighbors_free [OF sb, of nb cur] nb neighbors_iff [of nb cur w h] by blast
  then show ?thesis using blocked inv gc by simp
next
  case (keep gc')
  have "gc' = gc" using keep(2) gc by simp
  then have "\<exists>gw. g_score st nb = Some gw \<and> gw \<le> gc + 1"
    using keep(3) by (cases "g_score st nb") (auto simp: below_def)
  then show ?thesis using keep(4) inv gc by simp
next
  case (upd gc')
  have gc': "gc' = gc" using upd(2) gc by simp
  have adj: "adjacent cur nb" and fr: "free grid nb"
    using neighbors_free [OF sb, of nb cur] nb upd(1) by blast+
  have neq: "nb \<noteq> cur" using adj by (auto simp: adjacent_def moves4_def)
  have lt: "\<And>x. g_score st nb = Some x \<Longrightarrow> gc + 1 < x" using upd(3) gc' by (simp add: below_def)
  from a_inv_real [OF inv gc] obtain k where k: "reach grid start k cur" "int k = gc" by blast
  have rnb: "reach grid start (Suc k) nb" using k(1) adj fr by (rule reachS)
  have nbc: "nb \<notin> closed st"
  proof
    assume "nb \<in> closed st"
    from a_inv_closed [OF inv this rnb] obtain gv where "g_score st nb = Some gv" "gv \<le> int (Suc k)"
      by blast
    then show False using lt [of gv] k(2) by simp
  qed
  have cm: "came_from st' = (came_from st)(nb \<mapsto> cur)"
    and gm: "g_score st' = (g_score st)(nb \<mapsto> gc + 1)"
    and fm: "f_score st' = (f_score st)(nb \<mapsto> gc + 1 + heuristic nb goal)"
    and os: "open_set st' = insert nb (open_set st)"
    using upd(4) gc' by simp_all
  have cl: "closed st' = closed st" using nbc unfolding closed_def gm os by auto
  have mono: "\<exists>gv'. g_score st' n = Some gv' \<and> gv' \<le> gv" if "g_score st n = Some gv" for n gv
  proof (cases "n = nb")
    case True then show ?thesis using that lt [of gv] gm by simp
  next
    case False then show ?thesis using that gm by simp
  qed
  have tr: "tree_inv grid start (tree_of st')"
  proof (rule tree_inv_update [OF a_inv_tree [OF inv], of cur gc nb])
    show "gcost (tree_of st) cur = Some gc" using gc by (simp add: tree_of_def)
    show "adjacent cur nb" by (rule adj)
    show "free grid nb" by (rule fr)
    show "\<And>x. gcost (tree_of st) nb = Some x \<Longrightarrow> gc + 1 < x" using lt by (simp add: tree_of_def)
    show "came (tree_of st') = (came (tree_of st))(nb \<mapsto> cur)" using cm by (simp add: tree_of_def)
    show "gcost (tree_of st') = (gcost (tree_of st))(nb \<mapsto> gc + 1)" using gm by (simp add: tree_of_def)
    show "\<And>e. e \<in> set (openq (tree_of st')) \<Longrightarrow> e \<in> set (openq (tree_of st)) \<or> snd (snd e) = nb"
      by (simp add: tree_of_def)
  qed
  have "a_inv grid start goal {cur} st'"
    unfolding a_inv_def cl
  proof (intro conjI allI impI)
    show "tree_inv grid start (tree_of st')" by (rule tr)
    show "finite (open_set st')" using a_inv_finite [OF inv] os by simp
    show "open_set st' \<subseteq> dom (g_score st')" using a_inv_open [OF inv] os gm by auto
  next
    fix n
    show "f_score st' n = map_option (\<lambda>gv. gv + heuristic n goal) (g_score st' n)"
      using a_inv_f [OF inv, of n] fm gm by simp
  next
    fix v w assume a: "v \<in> closed st - {cur}" "adjacent v w" "free grid w"
    then have vv: "v \<in> closed st" "v \<notin> {cur}" by simp_all
    from a_inv_relaxed [OF inv vv a(2,3)] obtain gv gw where
      g: "g_score st v = Some gv" "g_score st w = Some gw" "gw \<le> gv + 1" by blast
    have "v \<noteq> nb" using vv(1) nbc by blast
    then have "g_score st' v = Some gv" using g(1) gm by simp
    moreover from mono [OF g(2)] obtain gw' where "g_score st' w = Some gw'" "gw' \<le> gw" by blast
    ultimately show "\<exists>gv gw. g_score st' v = Some gv \<and> g_score st' w = Some gw \<and> gw \<le> gv + 1"
      using g(3) by force
  next
    fix v k' assume a: "v \<in> closed st" "reach grid start k' v"
    from a_inv_closed [OF inv a] obtain gv where g: "g_score st v = Some gv" "gv \<le> int k'" by blast
    have "v \<noteq> nb" using a(1) nbc by blast
    then show "\<exists>gv. g_score st' v = Some gv \<and> gv \<le> int k'" using g gm by simp
  next
    fix n gv assume a: "g_score st' n = Some gv"
    show "\<exists>k. reach grid start k n \<and> int k = gv"
    proof (cases "n = nb")
      case True
      then have "gv = gc + 1" using a gm by simp
      then show ?thesis using rnb k(2) True by (intro exI [of _ "Suc k"]) simp
    next
      case False
      then have "g_score st n = Some gv" using a gm by simp
      then show ?thesis by (rule a_inv_real [OF inv])
    qed
  next
    show "goal \<notin> closed st" by (rule a_inv_goal [OF inv])
  qed
  moreover have "g_score st' cur = Some gc" using gm gc neq by simp
  moreover have "\<exists>gw. g_score st' nb = Some gw \<and> gw \<le> gc + 1" using gm by simp
  ultimately show ?thesis using mono cl by blast
qed

lemma improve_all_a_inv:
  assumes "a_inv grid start goal {cur} st"
    and "cur \<in> closed st" and "g_score st cur = Some gc"
    and "set nbs \<subseteq> set (neighbors cur w h)" and "same_blocking grid w h obstacles"
    and "improve_all obstacles goal cur nbs st = Inr st'"
    and "\<forall>n \<in> D. free grid n \<longrightarrow> (\<exists>gw. g_score st n = Some gw \<and> gw \<le> gc + 1)"
  shows "a_inv grid start goal {cur} st' \<and> closed st' = closed st \<and> g_score st' cur = Some gc \<and>
         (\<forall>n \<in> D \<union> set nbs. free grid n \<longrightarrow> (\<exists>gw. g_score st' n = Some gw \<and> gw \<le> gc + 1))"
  using assms(1,2,3,4,6,7)
proof (induction nbs arbitrary: st D)
  case Nil
  then show ?case by simp
next
  case (Cons nb nbs)
  from Cons.prems(5) obtain st1 where
    r: "improve obstacles goal cur nb st = Inr st1" and
    ra: "improve_all obstacles goal cur nbs st1 = Inr st'"
    by (auto split: sum.splits)
  have nb: "nb \<in> set (neighbors cur w h)" and nbs: "set nbs \<subseteq> set (neighbors cur w h)"
    using Cons.prems(4) by simp_all
  from improve_a_inv [OF Cons.prems(1,2,3) nb assms(5) r] have
    inv1: "a_inv grid start goal {cur} st1" and gc1: "g_score st1 cur = Some gc" and
    cl1: "closed st1 = closed st" and
    new: "free grid nb \<longrightarrow> (\<exists>gw. g_score st1 nb = Some gw \<and> gw \<le> gc + 1)" and
    mono: "\<forall>n gv. g_score st n = Some gv \<longrightarrow> (\<exists>gv'. g_score st1 n = Some gv' \<and> gv' \<le> gv)"
    by blast+
  have cc1: "cur \<in> closed st1" using Cons.prems(2) cl1 by simp
  have D1: "\<forall>n \<in> insert nb D. free grid n \<longrightarrow> (\<exists>gw. g_score st1 n = Some gw \<and> gw \<le> gc + 1)"
  proof (intro ballI impI)
    fix n assume a: "n \<in> insert nb D" "free grid n"
    show "\<exists>gw. g_score st1 n = Some gw \<and> gw \<le> gc + 1"
    proof (cases "n = nb")
      case True then show ?thesis using new a(2) by simp
    next
      case False
      then have "n \<in> D" using a(1) by simp
      then obtain gw where gw: "g_score st n = Some gw" "gw \<le> gc + 1"
        using Cons.prems(6) a(2) by blast
      from mono gw(1) obtain gw' where "g_score st1 n = Some gw'" "gw' \<le> gw" by blast
      then show ?thesis using gw(2) by force
    qed
  qed
  from Cons.IH [OF inv1 cc1 gc1 nbs ra D1] cl1 show ?case by simp
qed


lemma least_f_nonempty:
  assumes inv: "a_inv grid start goal X st" and ne: "open_set st \<noteq> {}"
  shows "finite (least_f st) \<and> least_f st \<noteq> {}"
proof -
  have fin: "finite (open_set st)" using inv by (rule a_inv_finite)
  define fv where "fv n = the (f_score st n)" for n
  have fs: "f_score st n = Some (fv n)" if "n \<in> open_set st" for n
    using a_inv_open [OF inv that] a_inv_f [OF inv, of n] by (auto simp: fv_def)
  define m where "m = arg_min_on fv (open_set st)"
  have m: "m \<in> open_set st" "\<And>n. n \<in> open_set st \<Longrightarrow> fv m \<le> fv n"
    using arg_min_if_finite [OF fin ne, of fv] unfolding m_def by (auto simp: not_less)
  have "m \<in> least_f st"
    using m fs by (auto simp: least_f_def key_le_def)
  moreover have "finite (least_f st)" using fin by (simp add: least_f_def)
  ultimately show ?thesis by blast
qed

lemma least_f_bound:
  assumes inv: "a_inv grid start goal {} st" and cur: "cur \<in> least_f st"
    and r: "reach grid start k n" and nc: "n \<notin> closed st"
  shows "\<exists>gv. g_score st cur = Some gv \<and> gv + heuristic cur goal \<le> int k + heuristic n goal"
proof -
  from a_frontier [OF inv r] nc obtain m gm where
    m: "m \<in> open_set st" "g_score st m = Some gm" "gm + heuristic m goal \<le> int k + heuristic n goal"
    by blast
  have co: "cur \<in> open_set st" and le: "key_le (f_score st cur) (f_score st m)"
    using cur m(1) by (auto simp: least_f_def)
  from a_inv_open [OF inv co] obtain gc where gc: "g_score st cur = Some gc" by blast
  have "gc + heuristic cur goal \<le> gm + heuristic m goal"
    using le a_inv_f [OF inv, of cur] a_inv_f [OF inv, of m] gc m(2) by (simp add: key_le_def)
  then show ?thesis using gc m(3) by force
qed

lemma a_inv_remove:
  assumes inv: "a_inv grid start goal {} st" and cur: "cur \<in> least_f st" and ng: "cur \<noteq> goal"
  shows "a_inv grid start goal {cur} (st\<lparr>open_set := open_set st - {cur}\<rparr>)"
proof -
  let ?st = "st\<lparr>open_set := open_set st - {cur}\<rparr>"
  have co: "cur \<in> open_set st" using cur by (simp add: least_f_def)
  from a_inv_open [OF inv co] obtain gc where gc: "g_score st cur = Some gc" by blast
  have cl: "closed ?st = insert cur (closed st)" using co gc by (auto simp: closed_def)
  have ncl: "cur \<notin> closed st" using co by (simp add: closed_def)
  have g: "g_score ?st = g_score st" and f: "f_score ?st = f_score st"
    and t: "tree_of ?st = tree_of st" by (simp_all add: tree_of_def)
  show ?thesis
    unfolding a_inv_def cl g f t
  proof (intro conjI allI impI)
    show "tree_inv grid start (tree_of st)" using inv by (rule a_inv_tree)
    show "finite (open_set ?st)" using a_inv_finite [OF inv] by simp
    show "open_set ?st \<subseteq> dom (g_score st)" using a_inv_open [OF inv] by auto
  next
    fix n show "f_score st n = map_option (\<lambda>gv. gv + heuristic n goal) (g_score st n)"
      by (rule a_inv_f [OF inv])
  next
    fix v w assume "v \<in> insert cur (closed st) - {cur}" "adjacent v w" "free grid w"
    then show "\<exists>gv gw. g_score st v = Some gv \<and> g_score st w = Some gw \<and> gw \<le> gv + 1"
      using a_inv_relaxed [OF inv, of v w] by simp
  next
    fix v k assume a: "v \<in> insert cur (closed st)" "reach grid start k v"
    show "\<exists>gv. g_score st v = Some gv \<and> gv \<le> int k"
    proof (cases "v = cur")
      case True
      from least_f_bound [OF inv cur a(2)] True ncl show ?thesis by auto
    next
      case False
      then have "v \<in> closed st" using a(1) by simp
      then show ?thesis using a(2) by (rule a_inv_closed [OF inv])
    qed
  next
    fix n gv assume "g_score st n = Some gv"
    then show "\<exists>k. reach grid start k n \<and> int k = gv" by (rule a_inv_real [OF inv])
  next
    show "goal \<notin> insert cur (closed st)" using a_inv_goal [OF inv] ng by simp
  qed
qed

lemma a_inv_close:
  assumes inv: "a_inv grid start goal {cur} st"
    and cur: "\<And>w. adjacent cur w \<Longrightarrow> free grid w \<Longrightarrow>
        \<exists>gv gw. g_score st cur = Some gv \<and> g_score st w = Some gw \<and> gw \<le> gv + 1"
  shows "a_inv grid start goal {} st"
  unfolding a_inv_def
proof (intro conjI allI impI)
  fix v w assume a: "v \<in> closed st - {}" "adjacent v w" "free grid w"
  show "\<exists>gv gw. g_score st v = Some gv \<and> g_score st w = Some gw \<and> gw \<le> gv + 1"
  proof (cases "v = cur")
    case True then show ?thesis using cur [OF _ a(3)] a(2) by simp
  next
    case False
    then show ?thesis using a_inv_relaxed [OF inv _ _ a(2,3)] a(1) by simp
  qed
next
  show "tree_inv grid start (tree_of st)" using inv by (rule a_inv_tree)
  show "finite (open_set st)" using inv by (rule a_inv_finite)
  show "open_set st \<subseteq> dom (g_score st)" using a_inv_open [OF inv] by auto
  show "goal \<notin> closed st" using inv by (rule a_inv_goal)
next
  fix n show "f_score st n = map_option (\<lambda>gv. gv + heuristic n goal) (g_score st n)"
    by (rule a_inv_f [OF inv])
next
  fix v k assume "v \<in> closed st" "reach grid start k v"
  then show "\<exists>gv. g_score st v = Some gv \<and> gv \<le> int k" by (rule a_inv_closed [OF inv])
next
  fix n gv assume "g_score st n = Some gv"
  then show "\<exists>k. reach grid start k n \<and> int k = gv" by (rule a_inv_real [OF inv])
qed

lemma improve_all_no_error:
  assumes "g_score st cur \<noteq> None"
  shows "improve_all obstacles goal cur nbs st \<noteq> Inl e"
  using assms
proof (induction nbs arbitrary: st)
  case Nil
  show ?case by simp
next
  case (Cons nb nbs)
  then obtain gc where gc: "g_score st cur = Some gc" by blast
  show ?case
  proof (cases "improve obstacles goal cur nb st")
    case (Inl e')
    then show ?thesis using gc by (auto simp: improve_def Let_def split: if_splits)
  next
    case (Inr st1)
    then have "g_score st1 cur \<noteq> None"
      using gc by (cases rule: improve_cases) auto
    from Cons.IH [OF this] Inr show ?thesis by simp
  qed
qed

lemma finite_free: "finite {n. free grid n}"
proof -
  have "{n. free grid n} \<subseteq> in_grid (int (length grid)) (int (length (hd grid)))"
    by (auto simp: free_def in_grid_def)
  moreover have "finite (in_grid (int (length grid)) (int (length (hd grid))))"
    by (simp add: in_grid_def)
  ultimately show ?thesis by (rule finite_subset)
qed


lemma a_star_loop_correct:
  assumes pick: "chooser pick" and sb: "same_blocking grid w h obstacles"
    and inv: "a_inv grid start goal {} st"
  shows "\<exists>r. a_star_loop pick w h obstacles goal k st = Some (Inr r) \<and>
           (r = [] \<or> route grid start goal r) \<and>
           (\<forall>K. reach grid start K goal \<longrightarrow> r \<noteq> [] \<and> length r \<le> K + 1)"
  using inv
proof (induction "card (insert start {n. free grid n} - closed st)" arbitrary: st k rule: less_induct)
  case less
  note inv = less.prems
  show ?case
  proof (cases "open_set st = {}")
    case True
    have "\<not> reach grid start K goal" for K
    proof
      assume "reach grid start K goal"
      from a_frontier [OF inv this] a_inv_goal [OF inv] True show False by simp
    qed
    moreover have "a_star_loop pick w h obstacles goal k st = Some (Inr [])"
      using True by (subst a_star_loop.simps) simp
    ultimately show ?thesis by simp
  next
    case ne: False
    define cur where "cur = pick k (least_f st)"
    have cl: "cur \<in> least_f st"
      using pick least_f_nonempty [OF inv ne] unfolding chooser_def cur_def by blast
    then have co: "cur \<in> open_set st" by (simp add: least_f_def)
    from a_inv_open [OF inv co] obtain gc where gc: "g_score st cur = Some gc" by blast
    show ?thesis
    proof (cases "cur = goal")
      case True
      have t: "tree_inv grid start (tree_of st)" using inv by (rule a_inv_tree)
      have "gcost (tree_of st) goal = Some gc" using gc True by (simp add: tree_of_def)
      from reconstruct_route [OF t this] obtain p where
        p: "reconstruct (came_from st) goal [goal] = Some p" "route grid start goal (rev p)"
           "int (length p) \<le> gc + 1" by (auto simp: tree_of_def)
      have ne_p: "rev p \<noteq> []" using p(2) by (simp add: route_def)
      have "length (rev p) \<le> K + 1" if "reach grid start K goal" for K
      proof -
        from least_f_bound [OF inv cl that a_inv_goal [OF inv]] gc True
        have "gc \<le> int K" by simp
        then show ?thesis using p(3) by simp
      qed
      moreover have "a_star_loop pick w h obstacles goal k st = Some (Inr (rev p))"
        using ne True p(1) unfolding cur_def by (subst a_star_loop.simps) (simp add: Let_def)
      ultimately show ?thesis using p(2) ne_p by blast
    next
      case ng: False
      let ?st1 = "st\<lparr>open_set := open_set st - {cur}\<rparr>"
      have inv1: "a_inv grid start goal {cur} ?st1" using inv cl ng by (rule a_inv_remove)
      have cl1: "closed ?st1 = insert cur (closed st)" using co gc by (auto simp: closed_def)
      have ncl: "cur \<notin> closed st" using co by (simp add: closed_def)
      have gc1: "g_score ?st1 cur = Some gc" using gc by simp
      have cc1: "cur \<in> closed ?st1" using cl1 by simp
      obtain st' where st': "improve_all obstacles goal cur (neighbors cur w h) ?st1 = Inr st'"
      proof (cases "improve_all obstacles goal cur (neighbors cur w h) ?st1")
        case (Inl e)
        then show ?thesis using improve_all_no_error [of ?st1 cur obstacles goal "neighbors cur w h" e] gc1
          by simp
      next
        case (Inr x) then show ?thesis using that by blast
      qed
      have "a_inv grid start goal {cur} st' \<and> closed st' = closed ?st1 \<and> g_score st' cur = Some gc \<and>
         (\<forall>n \<in> {} \<union> set (neighbors cur w h). free grid n \<longrightarrow>
            (\<exists>gw. g_score st' n = Some gw \<and> gw \<le> gc + 1))"
        by (rule improve_all_a_inv [OF inv1 cc1 gc1 _ sb st']) simp_all
      then have inv': "a_inv grid start goal {cur} st'" and cl': "closed st' = insert cur (closed st)"
        and gc': "g_score st' cur = Some gc"
        and rel: "\<And>n. n \<in> set (neighbors cur w h) \<Longrightarrow> free grid n \<Longrightarrow>
            \<exists>gw. g_score st' n = Some gw \<and> gw \<le> gc + 1"
        using cl1 by simp_all
      have inv2: "a_inv grid start goal {} st'"
      proof (rule a_inv_close [OF inv'])
        fix n assume a: "adjacent cur n" "free grid n"
        then have "n \<in> set (neighbors cur w h)" using neighbors_free [OF sb, of n cur] by blast
        from rel [OF this a(2)] gc'
        show "\<exists>gv gw. g_score st' cur = Some gv \<and> g_score st' n = Some gw \<and> gw \<le> gv + 1" by simp
      qed
      have cin: "cur \<in> insert start {n. free grid n}" using a_inv_dom_free [OF inv gc] by blast
      have "insert start {n. free grid n} - closed st' \<subset> insert start {n. free grid n} - closed st"
        using cin ncl cl' by blast
      moreover have "finite (insert start {n. free grid n} - closed st)" using finite_free by simp
      ultimately have "card (insert start {n. free grid n} - closed st')
          < card (insert start {n. free grid n} - closed st)"
        by (rule psubset_card_mono [rotated])
      from less.hyps [OF this inv2, of "Suc k"] obtain r where
        r: "a_star_loop pick w h obstacles goal (Suc k) st' = Some (Inr r)"
           "r = [] \<or> route grid start goal r"
           "\<forall>K. reach grid start K goal \<longrightarrow> r \<noteq> [] \<and> length r \<le> K + 1" by blast
      have "a_star_loop pick w h obstacles goal k st = Some (Inr r)"
        using ne ng co st' r(1) unfolding cur_def
        by (subst a_star_loop.simps) (simp add: Let_def)
      then show ?thesis using r(2,3) by blast
    qed
  qed
qed

lemma a_inv_init:
  "a_inv grid start goal {} \<lparr>open_set = {start}, came_from = Map.empty, g_score = [start \<mapsto> 0],
        f_score = [start \<mapsto> heuristic start goal]\<rparr>"
  unfolding a_inv_def
proof (intro conjI allI impI)
  fix n gv
  assume "g_score \<lparr>open_set = {start}, came_from = Map.empty, g_score = [start \<mapsto> 0],
        f_score = [start \<mapsto> heuristic start goal]\<rparr> n = Some gv"
  then have "n = start \<and> gv = 0" by (simp split: if_splits)
  then show "\<exists>k. reach grid start k n \<and> int k = gv" using reach0 [of grid start] by force
qed (simp_all add: tree_inv_def tree_of_def closed_def)

lemma a_star_correct:
  assumes "chooser pick" and "same_blocking grid w h obstacles"
  shows "\<exists>r. a_star pick start goal w h obstacles = Some (Inr r) \<and>
           (r = [] \<or> route grid start goal r) \<and>
           (\<forall>K. reach grid start K goal \<longrightarrow> r \<noteq> [] \<and> length r \<le> K + 1)"
  unfolding a_star_def by (rule a_star_loop_correct [OF assms a_inv_init])

text \<open>
  An obstacle-free grid, seen by \<open>a_star\<close>: the field of the same width and height with
  no obstacle. There \<open>a_star\<close>, which stands in \<open>float('inf')\<close> for a missing cost,
  returns a shortest path whatever the distance.
\<close>

lemma obstacle_free_same_blocking:
  assumes "obstacle_free grid"
  shows "same_blocking grid (int (length grid)) (int (length (hd grid))) {}"
  unfolding same_blocking_def passable_def
proof
  fix n
  show "(0 \<le> fst n \<and> fst n < int (length grid) \<and> 0 \<le> snd n \<and> snd n < int (length (hd grid)) \<and>
         n \<notin> {}) = free grid n"
    using obstacle_free_free [OF assms, of n] by (auto simp: free_def in_bounds_def)
qed

lemma a_star_free_grid:
  assumes of: "obstacle_free grid" and s: "in_bounds grid start" and t: "in_bounds grid goal"
    and ch: "chooser pick"
  shows "\<exists>p. a_star pick start goal (int (length grid)) (int (length (hd grid))) {} = Some (Inr p) \<and>
           int (length p) = heuristic start goal + 1"
proof -
  have h0: "0 \<le> heuristic start goal" by (rule heuristic_nonneg)
  from a_star_correct [OF ch obstacle_free_same_blocking [OF of], of start goal] obtain p where
    p: "a_star pick start goal (int (length grid)) (int (length (hd grid))) {} = Some (Inr p)"
       "p = [] \<or> route grid start goal p"
       "\<forall>K. reach grid start K goal \<longrightarrow> p \<noteq> [] \<and> length p \<le> K + 1" by blast
  from p(3) obstacle_free_reach [OF of s t]
  have ne: "p \<noteq> []" and le: "length p \<le> nat (heuristic start goal) + 1" by blast+
  have "route grid start goal p" using p(2) ne by simp
  from route_length_lower [OF this] le h0 have "int (length p) = heuristic start goal + 1"
    by linarith
  then show ?thesis using p(1) by blast
qed

lemma chooser_Min: "chooser (\<lambda>k. Min)"
  by (simp add: chooser_def)

section \<open>The claims\<close>

text \<open>
  Claim C2. Whenever \<open>astar\<close> returns a path, the path is not empty, begins at the start
  cell and ends at the goal cell, each cell is one of the four moves away from the cell
  before it, and every cell after the first lies inside the grid and holds \<open>0\<close> in the
  grid given to the planner. The start cell itself is never tested.
\<close>

theorem astar_path_valid:
  assumes "astar grid start goal = Some (Inr (Some p))"
  shows "p \<noteq> [] \<and> hd p = start \<and> last p = goal \<and> successively adjacent p \<and>
         (\<forall>c \<in> set (tl p). free grid c)"
  using astar_route [OF assms] unfolding route_def .

theorem astar_path_valid_witness:
  "astar [[0, 0, 0], [1, 1, 0], [0, 0, 0]] (0, 0) (2, 0)
     = Some (Inr (Some [(0, 0), (0, 1), (0, 2), (1, 2), (2, 2), (2, 1), (2, 0)])) \<and>
   hd [(0, 0), (0, 1), (0, 2), (1, 2), (2, 2), (2, 1), (2, 0)] = ((0, 0) :: cell) \<and>
   last [(0, 0), (0, 1), (0, 2), (1, 2), (2, 2), (2, 1), (2, 0)] = ((2, 0) :: cell) \<and>
   successively adjacent [(0, 0), (0, 1), (0, 2), (1, 2), (2, 2), (2, 1), (2, 0)] \<and>
   list_all (free [[0, 0, 0], [1, 1, 0], [0, 0, 0]])
     [(0, 1), (0, 2), (1, 2), (2, 2), (2, 1), (2, 0)]"
proof -
  have h: "astar [[0, 0, 0], [1, 1, 0], [0, 0, 0]] (0, 0) (2, 0)
     = Some (Inr (Some [(0, 0), (0, 1), (0, 2), (1, 2), (2, 2), (2, 1), (2, 0)]))"
    by code_simp
  from astar_path_valid [OF h] h show ?thesis by (simp add: list_all_iff)
qed

text \<open>
  Claim C1, as amended. On an obstacle-free rectangular grid, for in-grid start and goal
  cells, \<open>a_star\<close> (on the field of the same size with no obstacle, whatever the order in
  which its \<open>min\<close> breaks ties) returns a path of exactly \<open>heuristic start goal + 1\<close>
  cells, and so does \<open>astar\<close> when the Manhattan distance is below its sentinel
  \<open>1e9\<close>; at a distance of \<open>1e9\<close> or more \<open>astar\<close> returns \<open>None\<close>.
\<close>

theorem astar_obstacle_free_length:
  assumes "obstacle_free grid" and "in_bounds grid start" and "in_bounds grid goal"
    and "chooser pick"
  shows "(\<exists>p. a_star pick start goal (int (length grid)) (int (length (hd grid))) {} = Some (Inr p) \<and>
            int (length p) = heuristic start goal + 1) \<and>
         (if heuristic start goal < 1000000000
          then \<exists>p. astar grid start goal = Some (Inr (Some p)) \<and>
                 int (length p) = heuristic start goal + 1
          else astar grid start goal = Some (Inr None))"
proof (intro conjI)
  show "\<exists>p. a_star pick start goal (int (length grid)) (int (length (hd grid))) {} = Some (Inr p) \<and>
            int (length p) = heuristic start goal + 1"
    using assms by (rule a_star_free_grid)
  show "if heuristic start goal < 1000000000
        then \<exists>p. astar grid start goal = Some (Inr (Some p)) \<and>
               int (length p) = heuristic start goal + 1
        else astar grid start goal = Some (Inr None)"
  proof (cases "heuristic start goal < 1000000000")
    case True
    from astar_free_grid [OF assms(1-3) True] True show ?thesis by simp
  next
    case False
    then have "1000000000 \<le> heuristic start goal" by simp
    from astar_far_None [OF obstacle_free_wf [OF assms(1)] this] False show ?thesis by simp
  qed
qed

theorem astar_obstacle_free_length_witness:
  "obstacle_free [[0, 0, 0], [0, 0, 0]] \<and>
   in_bounds [[0, 0, 0], [0, 0, 0]] (0, 0) \<and> in_bounds [[0, 0, 0], [0, 0, 0]] (1, 2) \<and>
   chooser (\<lambda>k. Min) \<and> heuristic (0, 0) (1, 2) = 3 \<and>
   (\<exists>p. a_star (\<lambda>k. Min) (0, 0) (1, 2) 2 3 {} = Some (Inr p) \<and> length p = 4) \<and>
   (\<exists>p. astar [[0, 0, 0], [0, 0, 0]] (0, 0) (1, 2) = Some (Inr (Some p)) \<and> length p = 4)"
proof -
  have a: "obstacle_free [[0, 0, 0], [0, 0, 0]]" by (simp add: obstacle_free_def wf_grid_def)
  have b: "in_bounds [[0, 0, 0], [0, 0, 0]] (0, 0)" by (simp add: in_bounds_def)
  have c: "in_bounds [[0, 0, 0], [0, 0, 0]] (1, 2)" by (simp add: in_bounds_def)
  have d: "heuristic (0, 0) (1, 2) = 3" by (simp add: heuristic_def)
  from astar_obstacle_free_length [OF a b c chooser_Min] a b c d chooser_Min
  show ?thesis by simp
qed

text \<open>
  The claim as stated, for every obstacle-free grid, fails where the distance reaches the
  sentinel: on the one-row grid of \<open>1000000001\<close> free cells the far end is never given a
  cost (\<open>tentative < g.get(n, 1e9)\<close> is false at \<open>tentative = 1e9\<close>) and the planner
  returns \<open>None\<close>.
\<close>

theorem astar_obstacle_free_length_counterexample:
  "obstacle_free [replicate 1000000001 0] \<and>
   in_bounds [replicate 1000000001 0] (0, 0) \<and>
   in_bounds [replicate 1000000001 0] (0, 1000000000) \<and>
   astar [replicate 1000000001 0] (0, 0) (0, 1000000000) = Some (Inr None)"
proof -
  have wf: "wf_grid [replicate 1000000001 0]" by (simp add: wf_grid_def)
  have a: "obstacle_free [replicate 1000000001 0]"
    using wf by (simp add: obstacle_free_def)
  have b: "in_bounds [replicate 1000000001 0] (0, 0)"
    by (simp add: in_bounds_def)
  have c: "in_bounds [replicate 1000000001 0] (0, 1000000000)"
    by (simp add: in_bounds_def)
  have "1000000000 \<le> heuristic (0, 0) (0, 1000000000)" by (simp add: heuristic_def)
  from astar_far_None [OF wf this] a b c show ?thesis by blast
qed

text \<open>A one-row grid whose middle cell is a wall: the right end is cut off from the left.\<close>

lemma walled_reach: "reach [[0, 1, 0]] (0, 0) k n \<Longrightarrow> n = (0, 0)"
proof (induction rule: reach.induct)
  case reach0
  show ?case by simp
next
  case (reachS k u v)
  from reachS.hyps(2) reachS.IH have "v \<in> {(1, 0), (-1, 0), (0, 1), (0, -1)}"
    by (auto simp: adjacent_def moves4_def)
  then show ?case using reachS.hyps(3) by (auto simp: free_def grid_at_def py_get_def)
qed

lemma walled_unreachable: "\<not> reachable [[0, 1, 0]] (0, 0) (0, 2)"
proof
  assume "reachable [[0, 1, 0]] (0, 0) (0, 2)"
  then obtain p where "route [[0, 1, 0]] (0, 0) (0, 2) p" unfolding reachable_def by blast
  from walled_reach [OF route_reach [OF this]] show False by simp
qed

lemma walled_same_blocking: "same_blocking [[0, 1, 0]] 1 3 {(0, 1)}"
  unfolding same_blocking_def passable_def free_def
proof (intro allI)
  fix n :: cell
  obtain r c where n: "n = (r, c)" by (cases n)
  have "c = 0 \<or> c = 1 \<or> c = 2" if "0 \<le> c" "c < 3" using that by auto
  then show "(0 \<le> fst n \<and> fst n < 1 \<and> 0 \<le> snd n \<and> snd n < 3 \<and> n \<notin> {(0, 1)}) =
       (0 \<le> fst n \<and> fst n < int (length [[0, 1, 0 :: int]]) \<and> 0 \<le> snd n \<and>
        snd n < int (length (hd [[0, 1, 0 :: int]])) \<and>
        grid_at [[0, 1, 0]] (fst n) (snd n) = Inr 0)"
    unfolding n by (auto simp: grid_at_def py_get_def)
qed

text \<open>
  Claim C3, as amended. On a rectangular grid, when no chain of moves over free cells
  leads from the start to the goal, both planners return and raise nothing. The value of
  \<open>astar\<close> is Python's \<open>None\<close> (the \<open>return None\<close> after the \<open>while openq\<close> loop), not
  a list; the value of \<open>a_star\<close>, given the same blocking predicate, is the empty list,
  whatever the order in which it breaks ties.
\<close>

theorem astar_unreachable:
  assumes "wf_grid grid" and "same_blocking grid w h obstacles" and "chooser pick"
    and "\<not> reachable grid start goal"
  shows "astar grid start goal = Some (Inr None) \<and>
         a_star pick start goal w h obstacles = Some (Inr [])"
proof -
  from a_star_correct [OF assms(3,2), of start goal] obtain r where
    r: "a_star pick start goal w h obstacles = Some (Inr r)" "r = [] \<or> route grid start goal r"
    by blast
  then have "r = []" using assms(4) unfolding reachable_def by blast
  then show ?thesis using r(1) astar_no_route_None [OF assms(1,4)] by simp
qed

theorem astar_unreachable_witness:
  "wf_grid [[0, 1, 0]] \<and> same_blocking [[0, 1, 0]] 1 3 {(0, 1)} \<and> chooser (\<lambda>k. Min) \<and>
   \<not> reachable [[0, 1, 0]] (0, 0) (0, 2) \<and>
   astar [[0, 1, 0]] (0, 0) (0, 2) = Some (Inr None) \<and>
   a_star (\<lambda>k. Min) (0, 0) (0, 2) 1 3 {(0, 1)} = Some (Inr [])"
proof -
  have wf: "wf_grid [[0, 1, 0]]" by (simp add: wf_grid_def)
  have ch: "chooser (\<lambda>k. Min)" by (simp add: chooser_def)
  from astar_unreachable [OF wf walled_same_blocking ch walled_unreachable]
    wf walled_same_blocking ch walled_unreachable
  show ?thesis by blast
qed

text \<open>
  The claim as stated, that the planner returns an empty sequence of cells, fails for
  \<open>astar\<close>: its value on the walled grid is \<open>None\<close>.
\<close>

theorem astar_unreachable_counterexample:
  "\<not> reachable [[0, 1, 0]] (0, 0) (0, 2) \<and>
   astar [[0, 1, 0]] (0, 0) (0, 2) = Some (Inr None) \<and>
   astar [[0, 1, 0]] (0, 0) (0, 2) \<noteq> Some (Inr (Some []))"
proof -
  have "astar [[0, 1, 0]] (0, 0) (0, 2) = Some (Inr None)" by code_simp
  then show ?thesis using walled_unreachable by simp
qed

text \<open>
  Claim C4. The arrival step of \<open>animate_robot\<close> returns on every well-formed simulation
  whose path lies in the grid. The step leaves the phase flag \<open>returning\<close> and the cells
  \<open>start\<close> and \<open>goal\<close> as they were. When the cell after the one just reached is
  blocked, it makes exactly one planner call, from the cell just reached to \<open>goal\<close> when
  \<open>returning\<close> is false and to \<open>start\<close> when it is true, and then either adopts a path
  that begins at the robot's cell and ends at that destination, or stops moving and keeps
  the old path. When that cell is not blocked, or the path has ended, no planner call is
  made and the path is kept.
\<close>

theorem replan_keeps_destination:
  "(wf_sim s \<and> on_path s \<longrightarrow> (\<exists>s'. arrive s = Some (Inr s'))) \<and>
   (\<forall>s'. arrive s = Some (Inr s') \<longrightarrow>
      returning s' = returning s \<and> sim_start s' = sim_start s \<and> sim_goal s' = sim_goal s \<and>
      py_get (sim_path s) (path_index s) = Inr (robot_cell s') \<and>
      (if next_blocked s
       then planned s' =
              planned s @ [(robot_cell s', if returning s then sim_start s else sim_goal s)] \<and>
            (path_index s' = 0 \<and> sim_path s' \<noteq> [] \<and> hd (sim_path s') = robot_cell s' \<and>
               last (sim_path s') = (if returning s then sim_start s else sim_goal s) \<and>
               moving s' = moving s
             \<or> \<not> moving s' \<and> sim_path s' = sim_path s)
       else planned s' = planned s \<and> sim_path s' = sim_path s \<and>
            path_index s' = path_index s + 1 \<and> moving s' = moving s))"
proof (rule conjI)
  show "wf_sim s \<and> on_path s \<longrightarrow> (\<exists>s'. arrive s = Some (Inr s'))"
    using arrive_returns by blast
next
  have "returning s' = returning s \<and> sim_start s' = sim_start s \<and> sim_goal s' = sim_goal s \<and>
      py_get (sim_path s) (path_index s) = Inr (robot_cell s') \<and>
      (if next_blocked s
       then planned s' =
              planned s @ [(robot_cell s', if returning s then sim_start s else sim_goal s)] \<and>
            (path_index s' = 0 \<and> sim_path s' \<noteq> [] \<and> hd (sim_path s') = robot_cell s' \<and>
               last (sim_path s') = (if returning s then sim_start s else sim_goal s) \<and>
               moving s' = moving s
             \<or> \<not> moving s' \<and> sim_path s' = sim_path s)
       else planned s' = planned s \<and> sim_path s' = sim_path s \<and>
            path_index s' = path_index s + 1 \<and> moving s' = moving s)"
    if a: "arrive s = Some (Inr s')" for s'
    using arrive_blocked_replans [OF a] unfolding destination_def .
  then show "\<forall>s'. arrive s = Some (Inr s') \<longrightarrow>
      returning s' = returning s \<and> sim_start s' = sim_start s \<and> sim_goal s' = sim_goal s \<and>
      py_get (sim_path s) (path_index s) = Inr (robot_cell s') \<and>
      (if next_blocked s
       then planned s' =
              planned s @ [(robot_cell s', if returning s then sim_start s else sim_goal s)] \<and>
            (path_index s' = 0 \<and> sim_path s' \<noteq> [] \<and> hd (sim_path s') = robot_cell s' \<and>
               last (sim_path s') = (if returning s then sim_start s else sim_goal s) \<and>
               moving s' = moving s
             \<or> \<not> moving s' \<and> sim_path s' = sim_path s)
       else planned s' = planned s \<and> sim_path s' = sim_path s \<and>
            path_index s' = path_index s + 1 \<and> moving s' = moving s)"
    by blast
qed

text \<open>
  The step on a 3 x 3 grid with a wall in the middle, with the next cell of the path taken
  by a dynamic obstacle: outbound from the start the replan goes to the goal, and on the
  way back from the goal it goes to the start, both times round the other side of the
  wall.
\<close>

theorem replan_keeps_destination_witness:
  "wf_sim (demo_sim\<lparr>cfg_rows := 3, sim_grid := [[0, 0, 0], [0, 1, 0], [0, 0, 0]],
             sim_path := [(1, 0), (0, 0), (0, 1), (0, 2), (1, 2)], moving := True,
             dynamic := {(0, 0)}\<rparr>) \<and>
   on_path (demo_sim\<lparr>cfg_rows := 3, sim_grid := [[0, 0, 0], [0, 1, 0], [0, 0, 0]],
             sim_path := [(1, 0), (0, 0), (0, 1), (0, 2), (1, 2)], moving := True,
             dynamic := {(0, 0)}\<rparr>) \<and>
   next_blocked (demo_sim\<lparr>cfg_rows := 3, sim_grid := [[0, 0, 0], [0, 1, 0], [0, 0, 0]],
             sim_path := [(1, 0), (0, 0), (0, 1), (0, 2), (1, 2)], moving := True,
             dynamic := {(0, 0)}\<rparr>) \<and>
   (\<exists>s'. arrive (demo_sim\<lparr>cfg_rows := 3, sim_grid := [[0, 0, 0], [0, 1, 0], [0, 0, 0]],
                   sim_path := [(1, 0), (0, 0), (0, 1), (0, 2), (1, 2)], moving := True,
                   dynamic := {(0, 0)}\<rparr>) = Some (Inr s') \<and>
        \<not> returning s' \<and> sim_start s' = (1, 0) \<and> sim_goal s' = (1, 2) \<and>
        robot_cell s' = (1, 0) \<and> planned s' = [((1, 0), (1, 2))] \<and> path_index s' = 0 \<and>
        sim_path s' = [(1, 0), (2, 0), (2, 1), (2, 2), (1, 2)]) \<and>
   wf_sim (demo_sim\<lparr>cfg_rows := 3, sim_grid := [[0, 0, 0], [0, 1, 0], [0, 0, 0]],
             sim_path := [(1, 2), (0, 2), (0, 1), (0, 0), (1, 0)], moving := True,
             returning := True, dynamic := {(0, 2)}\<rparr>) \<and>
   on_path (demo_sim\<lparr>cfg_rows := 3, sim_grid := [[0, 0, 0], [0, 1, 0], [0, 0, 0]],
             sim_path := [(1, 2), (0, 2), (0, 1), (0, 0), (1, 0)], moving := True,
             returning := True, dynamic := {(0, 2)}\<rparr>) \<and>
   next_blocked (demo_sim\<lparr>cfg_rows := 3, sim_grid := [[0, 0, 0], [0, 1, 0], [0, 0, 0]],
             sim_path := [(1, 2), (0, 2), (0, 1), (0, 0), (1, 0)], moving := True,
             returning := True, dynamic := {(0, 2)}\<rparr>) \<and>
   (\<exists>s'. arrive (demo_sim\<lparr>cfg_rows := 3, sim_grid := [[0, 0, 0], [0, 1, 0], [0, 0, 0]],
                   sim_path := [(1, 2), (0, 2), (0, 1), (0, 0), (1, 0)], moving := True,
                   returning := True, dynamic := {(0, 2)}\<rparr>) = Some (Inr s') \<and>
        returning s' \<and> sim_start s' = (1, 0) \<and> sim_goal s' = (1, 2) \<and>
        robot_cell s' = (1, 2) \<and> planned s' = [((1, 2), (1, 0))] \<and> path_index s' = 0 \<and>
        sim_path s' = [(1, 2), (2, 2), (2, 1), (2, 0), (1, 0)])"
proof -
  let ?A = "demo_sim\<lparr>cfg_rows := 3, sim_grid := [[0, 0, 0], [0, 1, 0], [0, 0, 0]],
             sim_path := [(1, 0), (0, 0), (0, 1), (0, 2), (1, 2)], moving := True,
             dynamic := {(0, 0)}\<rparr>"
  let ?B = "demo_sim\<lparr>cfg_rows := 3, sim_grid := [[0, 0, 0], [0, 1, 0], [0, 0, 0]],
             sim_path := [(1, 2), (0, 2), (0, 1), (0, 0), (1, 0)], moving := True,
             returning := True, dynamic := {(0, 2)}\<rparr>"
  have wa: "wf_sim ?A" and wb: "wf_sim ?B"
    by (simp_all add: demo_sim_def wf_sim_def wf_grid_def in_bounds_def)
  have oa: "on_path ?A" and ob: "on_path ?B"
    by (simp_all add: demo_sim_def on_path_def in_bounds_def)
  have na: "next_blocked ?A" and nb: "next_blocked ?B"
    by (simp_all add: demo_sim_def next_blocked_def py_get_def)
  have fa: "\<not> returning ?A" "sim_start ?A = (1, 0)" "sim_goal ?A = (1, 2)"
    and fb: "returning ?B" "sim_start ?B = (1, 0)" "sim_goal ?B = (1, 2)"
    by (simp_all add: demo_sim_def)
  have "map_option (map_sum id (\<lambda>s'. (planned s', sim_path s'))) (arrive ?A)
      = Some (Inr ([((1, 0), (1, 2))], [(1, 0), (2, 0), (2, 1), (2, 2), (1, 2)]))"
    by code_simp
  then obtain a' where a': "arrive ?A = Some (Inr a')" "planned a' = [((1, 0), (1, 2))]"
    "sim_path a' = [(1, 0), (2, 0), (2, 1), (2, 2), (1, 2)]"
    by (cases "arrive ?A"; cases "the (arrive ?A)") auto
  have "map_option (map_sum id (\<lambda>s'. (planned s', sim_path s'))) (arrive ?B)
      = Some (Inr ([((1, 2), (1, 0))], [(1, 2), (2, 2), (2, 1), (2, 0), (1, 0)]))"
    by code_simp
  then obtain b' where b': "arrive ?B = Some (Inr b')" "planned b' = [((1, 2), (1, 0))]"
    "sim_path b' = [(1, 2), (2, 2), (2, 1), (2, 0), (1, 0)]"
    by (cases "arrive ?B"; cases "the (arrive ?B)") auto
  have ra: "\<not> returning a' \<and> sim_start a' = (1, 0) \<and> sim_goal a' = (1, 2) \<and>
        robot_cell a' = (1, 0) \<and> path_index a' = 0"
    using replan_keeps_destination [of ?A] a' na fa by auto
  have rb: "returning b' \<and> sim_start b' = (1, 0) \<and> sim_goal b' = (1, 2) \<and>
        robot_cell b' = (1, 2) \<and> path_index b' = 0"
    using replan_keeps_destination [of ?B] b' nb fb by auto
  show ?thesis using wa oa na a' ra wb ob nb b' rb by blast
qed

text \<open>
  Claim C8, as amended. When the robot's cell is the goal cell and navigation is not under
  way, \<open>start_navigation\<close> does call the planner, once, from the goal to the goal; the
  planner answers at its first pop with the one-cell path, which is handed to the
  animation thread. Nothing else of the simulation changes in the call.
\<close>

theorem start_at_goal_plans_once:
  assumes "\<not> moving s" and "robot_cell s = sim_goal s" and "wf_sim s"
  shows "start_navigation s =
           Some (Inr (s\<lparr>planned := planned s @ [(sim_goal s, sim_goal s)]\<rparr>, Some [sim_goal s]))"
  using assms by (rule start_navigation_at_goal)

theorem start_at_goal_plans_once_witness:
  "\<not> moving (demo_sim\<lparr>robot_cell := (1, 2)\<rparr>) \<and>
   robot_cell (demo_sim\<lparr>robot_cell := (1, 2)\<rparr>) = sim_goal (demo_sim\<lparr>robot_cell := (1, 2)\<rparr>) \<and>
   wf_sim (demo_sim\<lparr>robot_cell := (1, 2)\<rparr>) \<and>
   start_navigation (demo_sim\<lparr>robot_cell := (1, 2)\<rparr>) =
     Some (Inr (demo_sim\<lparr>robot_cell := (1, 2), planned := [((1, 2), (1, 2))]\<rparr>, Some [(1, 2)]))"
proof -
  have a: "\<not> moving (demo_sim\<lparr>robot_cell := (1, 2)\<rparr>)" by (simp add: demo_sim_def)
  have b: "robot_cell (demo_sim\<lparr>robot_cell := (1, 2)\<rparr>) = sim_goal (demo_sim\<lparr>robot_cell := (1, 2)\<rparr>)"
    by (simp add: demo_sim_def)
  have c: "wf_sim (demo_sim\<lparr>robot_cell := (1, 2)\<rparr>)"
    by (simp add: demo_sim_def wf_sim_def wf_grid_def)
  from start_at_goal_plans_once [OF a b c] a b c show ?thesis by (simp add: demo_sim_def)
qed

text \<open>
  The claim as stated, that no planner call is made, fails: at the goal cell the call
  \<open>astar(grid, (1, 2), (1, 2))\<close> is recorded.
\<close>

theorem start_at_goal_counterexample:
  "robot_cell (demo_sim\<lparr>robot_cell := (1, 2)\<rparr>) = sim_goal (demo_sim\<lparr>robot_cell := (1, 2)\<rparr>) \<and>
   planned (demo_sim\<lparr>robot_cell := (1, 2)\<rparr>) = [] \<and>
   map_option (map_sum id (planned \<circ> fst)) (start_navigation (demo_sim\<lparr>robot_cell := (1, 2)\<rparr>))
     = Some (Inr [((1, 2), (1, 2))])"
  by code_simp

text \<open>
  Claim C9, at the input where it fails. \<open>start_navigation\<close> leaves \<open>moving\<close> as it
  found it (the flag is set later, by the thread it starts), so a second call made before
  that thread has run passes the guard again: two planner calls are recorded and a second
  path is handed out.
\<close>

theorem double_start_plans_twice:
  "map_option (map_sum id (\<lambda>(s1, r1).
       (moving s1, r1,
        map_option (map_sum id (\<lambda>(s2, r2). (planned s2, r2))) (start_navigation s1))))
     (start_navigation demo_sim)
   = Some (Inr (False, Some [(1, 0), (0, 0), (0, 1), (0, 2), (1, 2)],
        Some (Inr ([((1, 0), (1, 2)), ((1, 0), (1, 2))],
                   Some [(1, 0), (0, 0), (0, 1), (0, 2), (1, 2)]))))"
  by code_simp

text \<open>
  Claim C5, at the input where it fails. Two obstacles that both find the same free cell
  first are both put on it: the candidate is tested against \<open>self.dynamic\<close> only, not
  against the cells already given out in \<open>newset\<close>. Here the obstacles at \<open>(0, 0)\<close> and
  \<open>(0, 2)\<close> both move to \<open>(0, 1)\<close>, and one obstacle is left where two were. The
  placement before the tick is as \<open>spawn_dynamic\<close> makes it.
\<close>

theorem move_dynamic_collision:
  "placeable (demo_sim\<lparr>dynamic := {(0, 0), (0, 2)}\<rparr>) (0, 0) \<and>
   placeable (demo_sim\<lparr>dynamic := {(0, 0), (0, 2)}\<rparr>) (0, 2) \<and>
   card (dynamic (demo_sim\<lparr>dynamic := {(0, 0), (0, 2)}\<rparr>)) = 2 \<and>
   map_sum id dynamic
     (move_dynamic (demo_sim\<lparr>dynamic := {(0, 0), (0, 2)}\<rparr>)
        (\<lambda>c. (True, [(0, 0), (0, 1), (0, -1), (1, 0), (-1, 0)])))
     = Inr {(0, 1)}"
proof -
  have "placeable (demo_sim\<lparr>dynamic := {(0, 0), (0, 2)}\<rparr>) (0, 0)"
    by (simp add: placeable_def demo_sim_def grid_at_def py_get_def)
  moreover have "placeable (demo_sim\<lparr>dynamic := {(0, 0), (0, 2)}\<rparr>) (0, 2)"
    by (simp add: placeable_def demo_sim_def grid_at_def py_get_def)
  moreover have "card (dynamic (demo_sim\<lparr>dynamic := {(0, 0), (0, 2)}\<rparr>)) = 2"
    by simp
  moreover have "map_sum id dynamic
     (move_dynamic (demo_sim\<lparr>dynamic := {(0, 0), (0, 2)}\<rparr>)
        (\<lambda>c. (True, [(0, 0), (0, 1), (0, -1), (1, 0), (-1, 0)])))
     = Inr {(0, 1)}"
    by code_simp
  ultimately show ?thesis by blast
qed

text \<open>
  Claim C6. A sweep returns on every well-formed simulation. After a sweep that returns,
  the detected set is stored in \<open>detected_cells\<close> and holds exactly the cells on which
  some beam ended. A beam ends on at most one cell, and that cell is covered by the beam at
  some step \<open>d\<close> within the range, lies inside the grid, is a wall or a dynamic obstacle
  at the time of the scan, and is the first such cell: at every earlier step the beam
  covered a cell inside the grid that is not occupied. So every detected cell is occupied.
  In the other direction, a beam of the sweep that covers an occupied cell inside the grid,
  after cells inside the grid that are not occupied, ends on that cell: the cell is
  detected, the beam records its end points up to that step and no further, and nothing
  past that cell is detected by that beam.
\<close>

theorem lidar_detects_first_occupied:
  "(wf_sim s \<longrightarrow> (\<exists>s' sensors detected. lidar_scan s cast = Inr (s', sensors, detected))) \<and>
   (\<forall>s' sensors detected. lidar_scan s cast = Inr (s', sensors, detected) \<longrightarrow>
      detected_cells s' = detected \<and>
      detected = {c. \<exists>a \<in> set lidar_angles.
                     beam_hit s (cast (a + last_lidar_angle s)) lidar_steps = Some c} \<and>
      sensors = concat (map (\<lambda>a. map (\<lambda>d. ray_end s (cast (a + last_lidar_angle s) d))
                                   (walked s (cast (a + last_lidar_angle s)) lidar_steps))
                         lidar_angles) \<and>
      (\<forall>c \<in> detected. occupied s c) \<and>
      (\<forall>a c. beam_hit s (cast a) lidar_steps = Some c \<longrightarrow>
         (\<exists>pre d post. lidar_steps = pre @ d # post \<and> c = cast a d \<and> inside s c \<and>
            occupied s c \<and> (\<forall>d' \<in> set pre. inside s (cast a d') \<and> \<not> occupied s (cast a d')))) \<and>
      (\<forall>a \<in> set lidar_angles. \<forall>pre d post.
         lidar_steps = pre @ d # post \<and>
         (\<forall>d' \<in> set pre. inside s (cast (a + last_lidar_angle s) d') \<and>
                           \<not> occupied s (cast (a + last_lidar_angle s) d')) \<and>
         inside s (cast (a + last_lidar_angle s) d) \<and>
         occupied s (cast (a + last_lidar_angle s) d) \<longrightarrow>
         beam_hit s (cast (a + last_lidar_angle s)) lidar_steps
           = Some (cast (a + last_lidar_angle s) d) \<and>
         cast (a + last_lidar_angle s) d \<in> detected \<and>
         walked s (cast (a + last_lidar_angle s)) lidar_steps = pre @ [d]))"
proof (rule conjI)
  show "wf_sim s \<longrightarrow> (\<exists>s' sensors detected. lidar_scan s cast = Inr (s', sensors, detected))"
    using lidar_scan_returns by blast
next
  have first: "\<exists>pre d post. lidar_steps = pre @ d # post \<and> c = cast a d \<and> inside s c \<and>
               occupied s c \<and> (\<forall>d' \<in> set pre. inside s (cast a d') \<and> \<not> occupied s (cast a d'))"
    if "beam_hit s (cast a) lidar_steps = Some c" for a c
    using that by (rule beam_hit_first)
  have main: "detected_cells s' = detected \<and>
      detected = {c. \<exists>a \<in> set lidar_angles.
                     beam_hit s (cast (a + last_lidar_angle s)) lidar_steps = Some c} \<and>
      sensors = concat (map (\<lambda>a. map (\<lambda>d. ray_end s (cast (a + last_lidar_angle s) d))
                                   (walked s (cast (a + last_lidar_angle s)) lidar_steps))
                         lidar_angles) \<and>
      (\<forall>c \<in> detected. occupied s c) \<and>
      (\<forall>a \<in> set lidar_angles. \<forall>pre d post.
         lidar_steps = pre @ d # post \<and>
         (\<forall>d' \<in> set pre. inside s (cast (a + last_lidar_angle s) d') \<and>
                           \<not> occupied s (cast (a + last_lidar_angle s) d')) \<and>
         inside s (cast (a + last_lidar_angle s) d) \<and>
         occupied s (cast (a + last_lidar_angle s) d) \<longrightarrow>
         beam_hit s (cast (a + last_lidar_angle s)) lidar_steps
           = Some (cast (a + last_lidar_angle s) d) \<and>
         cast (a + last_lidar_angle s) d \<in> detected \<and>
         walked s (cast (a + last_lidar_angle s)) lidar_steps = pre @ [d])"
    if sc: "lidar_scan s cast = Inr (s', sensors, detected)" for s' sensors detected
  proof -
    note l = lidar_scan_detected [OF sc]
    from sc have sw: "sweep s cast lidar_angles = Inr (sensors, detected)"
      by (auto simp: lidar_scan_def split: sum.splits)
    note ex = sweep_exact [OF sw]
    have occ: "\<forall>c \<in> detected. occupied s c"
    proof
      fix c assume "c \<in> detected"
      then obtain a where "beam_hit s (cast (a + last_lidar_angle s)) lidar_steps = Some c"
        using l by blast
      from first [OF this] show "occupied s c" by blast
    qed
    have comp: "beam_hit s (cast (a + last_lidar_angle s)) lidar_steps
           = Some (cast (a + last_lidar_angle s) d) \<and>
         cast (a + last_lidar_angle s) d \<in> detected \<and>
         walked s (cast (a + last_lidar_angle s)) lidar_steps = pre @ [d]"
      if a: "a \<in> set lidar_angles" and st: "lidar_steps = pre @ d # post"
        and pre: "\<forall>d' \<in> set pre. inside s (cast (a + last_lidar_angle s) d') \<and>
                           \<not> occupied s (cast (a + last_lidar_angle s) d')"
        and ins: "inside s (cast (a + last_lidar_angle s) d)"
        and oc: "occupied s (cast (a + last_lidar_angle s) d)"
      for a pre d post
    proof -
      from ex a obtain sn where
        b: "beam s (cast (a + last_lidar_angle s)) lidar_steps
              = Inr (sn, beam_hit s (cast (a + last_lidar_angle s)) lidar_steps)" by blast
      from beam_complete [OF b st pre ins oc]
      have h: "beam_hit s (cast (a + last_lidar_angle s)) lidar_steps
                 = Some (cast (a + last_lidar_angle s) d)" by blast
      then have "cast (a + last_lidar_angle s) d \<in> detected" using l a by blast
      then show ?thesis using h walked_first [OF st pre ins oc] by blast
    qed
    show ?thesis using l ex occ comp by blast
  qed
  show "\<forall>s' sensors detected. lidar_scan s cast = Inr (s', sensors, detected) \<longrightarrow>
      detected_cells s' = detected \<and>
      detected = {c. \<exists>a \<in> set lidar_angles.
                     beam_hit s (cast (a + last_lidar_angle s)) lidar_steps = Some c} \<and>
      sensors = concat (map (\<lambda>a. map (\<lambda>d. ray_end s (cast (a + last_lidar_angle s) d))
                                   (walked s (cast (a + last_lidar_angle s)) lidar_steps))
                         lidar_angles) \<and>
      (\<forall>c \<in> detected. occupied s c) \<and>
      (\<forall>a c. beam_hit s (cast a) lidar_steps = Some c \<longrightarrow>
         (\<exists>pre d post. lidar_steps = pre @ d # post \<and> c = cast a d \<and> inside s c \<and>
            occupied s c \<and> (\<forall>d' \<in> set pre. inside s (cast a d') \<and> \<not> occupied s (cast a d')))) \<and>
      (\<forall>a \<in> set lidar_angles. \<forall>pre d post.
         lidar_steps = pre @ d # post \<and>
         (\<forall>d' \<in> set pre. inside s (cast (a + last_lidar_angle s) d') \<and>
                           \<not> occupied s (cast (a + last_lidar_angle s) d')) \<and>
         inside s (cast (a + last_lidar_angle s) d) \<and>
         occupied s (cast (a + last_lidar_angle s) d) \<longrightarrow>
         beam_hit s (cast (a + last_lidar_angle s)) lidar_steps
           = Some (cast (a + last_lidar_angle s) d) \<and>
         cast (a + last_lidar_angle s) d \<in> detected \<and>
         walked s (cast (a + last_lidar_angle s)) lidar_steps = pre @ [d])"
  proof (intro allI impI)
    fix s' sensors detected
    assume sc: "lidar_scan s cast = Inr (s', sensors, detected)"
    from main [OF sc] first show "detected_cells s' = detected \<and>
      detected = {c. \<exists>a \<in> set lidar_angles.
                     beam_hit s (cast (a + last_lidar_angle s)) lidar_steps = Some c} \<and>
      sensors = concat (map (\<lambda>a. map (\<lambda>d. ray_end s (cast (a + last_lidar_angle s) d))
                                   (walked s (cast (a + last_lidar_angle s)) lidar_steps))
                         lidar_angles) \<and>
      (\<forall>c \<in> detected. occupied s c) \<and>
      (\<forall>a c. beam_hit s (cast a) lidar_steps = Some c \<longrightarrow>
         (\<exists>pre d post. lidar_steps = pre @ d # post \<and> c = cast a d \<and> inside s c \<and>
            occupied s c \<and> (\<forall>d' \<in> set pre. inside s (cast a d') \<and> \<not> occupied s (cast a d')))) \<and>
      (\<forall>a \<in> set lidar_angles. \<forall>pre d post.
         lidar_steps = pre @ d # post \<and>
         (\<forall>d' \<in> set pre. inside s (cast (a + last_lidar_angle s) d') \<and>
                           \<not> occupied s (cast (a + last_lidar_angle s) d')) \<and>
         inside s (cast (a + last_lidar_angle s) d) \<and>
         occupied s (cast (a + last_lidar_angle s) d) \<longrightarrow>
         beam_hit s (cast (a + last_lidar_angle s)) lidar_steps
           = Some (cast (a + last_lidar_angle s) d) \<and>
         cast (a + last_lidar_angle s) d \<in> detected \<and>
         walked s (cast (a + last_lidar_angle s)) lidar_steps = pre @ [d])"
      by (intro conjI) blast+
  qed
qed

text \<open>
  A sweep on a 2 x 4 grid from the corner \<open>(0, 0)\<close>, with a wall at \<open>(1, 1)\<close> and
  dynamic obstacles at \<open>(0, 2)\<close> and \<open>(0, 3)\<close>. The beam along the top row passes the
  free cell \<open>(0, 1)\<close> and ends on the obstacle at \<open>(0, 2)\<close>, at its second step; the
  obstacle behind it is not detected. The diagonal beam ends on the wall at its first step,
  and the beam down the first column leaves the grid without a hit.
\<close>

theorem lidar_detects_first_occupied_witness:
  "wf_sim (demo_sim\<lparr>cfg_cols := 4, sim_grid := [[0, 0, 0, 0], [0, 1, 0, 0]],
            dynamic := {(0, 2), (0, 3)}, robot_cell := (0, 0), robot_pos := (18, 18)\<rparr>) \<and>
   (\<exists>s' sensors.
      lidar_scan (demo_sim\<lparr>cfg_cols := 4, sim_grid := [[0, 0, 0, 0], [0, 1, 0, 0]],
            dynamic := {(0, 2), (0, 3)}, robot_cell := (0, 0), robot_pos := (18, 18)\<rparr>)
         (\<lambda>a d. if a = 0 then (0, d) else if a = 48 then (d, d) else if a = 90 then (d, 0)
                 else (- 1, - 1))
       = Inr (s', sensors, {(0, 2), (1, 1)}) \<and>
      detected_cells s' = {(0, 2), (1, 1)} \<and> length sensors = 4) \<and>
   0 \<in> set lidar_angles \<and> lidar_steps = [1] @ 2 # [3, 4, 5] \<and>
   inside (demo_sim\<lparr>cfg_cols := 4, sim_grid := [[0, 0, 0, 0], [0, 1, 0, 0]],
            dynamic := {(0, 2), (0, 3)}, robot_cell := (0, 0), robot_pos := (18, 18)\<rparr>) (0, 1) \<and>
   \<not> occupied (demo_sim\<lparr>cfg_cols := 4, sim_grid := [[0, 0, 0, 0], [0, 1, 0, 0]],
            dynamic := {(0, 2), (0, 3)}, robot_cell := (0, 0), robot_pos := (18, 18)\<rparr>) (0, 1) \<and>
   inside (demo_sim\<lparr>cfg_cols := 4, sim_grid := [[0, 0, 0, 0], [0, 1, 0, 0]],
            dynamic := {(0, 2), (0, 3)}, robot_cell := (0, 0), robot_pos := (18, 18)\<rparr>) (0, 2) \<and>
   occupied (demo_sim\<lparr>cfg_cols := 4, sim_grid := [[0, 0, 0, 0], [0, 1, 0, 0]],
            dynamic := {(0, 2), (0, 3)}, robot_cell := (0, 0), robot_pos := (18, 18)\<rparr>) (0, 2) \<and>
   occupied (demo_sim\<lparr>cfg_cols := 4, sim_grid := [[0, 0, 0, 0], [0, 1, 0, 0]],
            dynamic := {(0, 2), (0, 3)}, robot_cell := (0, 0), robot_pos := (18, 18)\<rparr>) (0, 3) \<and>
   (0, 3) \<notin> {(0, 2), (1, 1) :: cell} \<and>
   walked (demo_sim\<lparr>cfg_cols := 4, sim_grid := [[0, 0, 0, 0], [0, 1, 0, 0]],
            dynamic := {(0, 2), (0, 3)}, robot_cell := (0, 0), robot_pos := (18, 18)\<rparr>)
      (\<lambda>d. (0, d)) lidar_steps = [1, 2]"
proof -
  let ?W = "demo_sim\<lparr>cfg_cols := 4, sim_grid := [[0, 0, 0, 0], [0, 1, 0, 0]],
            dynamic := {(0, 2), (0, 3)}, robot_cell := (0, 0), robot_pos := (18, 18)\<rparr>"
  let ?cast = "\<lambda>a d. if a = 0 then (0, d) else if a = 48 then (d, d) else if a = 90 then (d, 0)
                 else (- 1, - 1) :: cell"
  have wf: "wf_sim ?W" by (simp add: demo_sim_def wf_sim_def wf_grid_def in_bounds_def)
  have "map_sum id (\<lambda>(s', sn, det). (length sn, det)) (lidar_scan ?W ?cast)
          = Inr (4, {(0, 2), (1, 1)})"
    by code_simp
  then obtain s' sensors where e: "lidar_scan ?W ?cast = Inr (s', sensors, {(0, 2), (1, 1)})"
    and len: "length sensors = 4"
    by (cases "lidar_scan ?W ?cast") auto
  have a0: "0 \<in> set lidar_angles" by (simp add: lidar_angles_def)
  have st: "lidar_steps = [1] @ 2 # [3, 4, 5]" by (simp add: lidar_steps_def)
  have l0: "last_lidar_angle ?W = 0" by (simp add: demo_sim_def)
  have c: "inside ?W (0, 1)" "\<not> occupied ?W (0, 1)" "inside ?W (0, 2)" "occupied ?W (0, 2)"
    "occupied ?W (0, 3)"
    by (simp_all add: demo_sim_def inside_def occupied_def grid_at_def py_get_def)
  note t = lidar_detects_first_occupied [of ?W ?cast]
  note t2 = t [THEN conjunct2, rule_format, OF e]
  from t2 have d: "detected_cells s' = {(0, 2), (1, 1)}" by blast
  note comp = t2 [THEN conjunct2, THEN conjunct2, THEN conjunct2, THEN conjunct2,
      THEN conjunct2, rule_format, of 0 "[1]" 2 "[3, 4, 5]"]
  have "walked ?W (?cast (0 + last_lidar_angle ?W)) lidar_steps = [1] @ [2]"
    using comp a0 st c l0 by simp
  then have w: "walked ?W (\<lambda>d. (0, d)) lidar_steps = [1, 2]" by (simp add: l0)
  show ?thesis using wf e d len a0 st c w by auto
qed




text \<open>
  Claim C10, as amended. Let the two planners be given the same blocking predicate: a cell
  is free for \<open>astar\<close> exactly when \<open>a_star\<close> may enter it. If the goal can be reached by
  a path of at most \<open>1e9\<close> cells, then both planners return a path, whatever the order
  in which \<open>a_star\<close> breaks ties, and the two paths have the same number of cells, which
  no path from the start to the goal undercuts.
\<close>

theorem planners_agree:
  assumes "wf_grid grid" and "same_blocking grid w h obstacles" and "chooser pick"
    and "route grid start goal q" and "length q \<le> 1000000000"
  shows "\<exists>p1 p2. astar grid start goal = Some (Inr (Some p1)) \<and>
           a_star pick start goal w h obstacles = Some (Inr p2) \<and>
           route grid start goal p1 \<and> route grid start goal p2 \<and>
           length p1 = length p2 \<and> length p1 \<le> length q"
proof -
  have qne: "q \<noteq> []" using assms(4) by (simp add: route_def)
  have rq: "reach grid start (length q - 1) goal" using assms(4) by (rule route_reach)
  have bq: "int (length q - 1) < 1000000000" using assms(5) qne by (cases q) simp_all
  from astar_optimal [OF assms(1) rq bq] obtain p1 where
    p1: "astar grid start goal = Some (Inr (Some p1))" "route grid start goal p1"
        "length p1 \<le> length q - 1 + 1" by blast
  have l1: "length p1 \<le> length q" using p1(3) qne by (cases q) simp_all
  from a_star_correct [OF assms(3,2), of start goal] obtain p2 where
    p2: "a_star pick start goal w h obstacles = Some (Inr p2)"
        "p2 = [] \<or> route grid start goal p2"
        "\<forall>K. reach grid start K goal \<longrightarrow> p2 \<noteq> [] \<and> length p2 \<le> K + 1" by blast
  have ne2: "p2 \<noteq> []" and r2: "route grid start goal p2" using p2(2,3) rq by blast+
  have p1ne: "p1 \<noteq> []" using p1(2) by (simp add: route_def)
  have "length p2 \<le> length p1 - 1 + 1" using p2(3) route_reach [OF p1(2)] by blast
  then have le21: "length p2 \<le> length p1" using p1ne by (cases p1) simp_all
  have "length p2 \<le> length q - 1 + 1" using p2(3) rq by blast
  then have "int (length p2 - 1) < 1000000000" using assms(5) qne ne2
    by (cases q; cases p2) simp_all
  from astar_optimal [OF assms(1) route_reach [OF r2] this] p1(1)
  have "length p1 \<le> length p2 - 1 + 1" by auto
  then have "length p1 \<le> length p2" using ne2 by (cases p2) simp_all
  then show ?thesis using p1(1,2) p2(1) r2 le21 l1 by auto
qed

theorem planners_agree_witness:
  "wf_grid [[0, 1, 0], [0, 0, 0]] \<and> same_blocking [[0, 1, 0], [0, 0, 0]] 2 3 {(0, 1)} \<and>
   chooser (\<lambda>k. Min) \<and>
   route [[0, 1, 0], [0, 0, 0]] (0, 0) (0, 2) [(0, 0), (1, 0), (1, 1), (1, 2), (0, 2)] \<and>
   length [(0, 0), (1, 0), (1, 1), (1, 2), (0, 2) :: cell] \<le> 1000000000 \<and>
   (\<exists>p1 p2. astar [[0, 1, 0], [0, 0, 0]] (0, 0) (0, 2) = Some (Inr (Some p1)) \<and>
      a_star (\<lambda>k. Min) (0, 0) (0, 2) 2 3 {(0, 1)} = Some (Inr p2) \<and>
      length p1 = length p2 \<and> length p1 \<le> 5)"
proof -
  have a: "wf_grid [[0, 1, 0], [0, 0, 0]]" by (simp add: wf_grid_def)
  have b: "same_blocking [[0, 1, 0], [0, 0, 0]] 2 3 {(0, 1)}"
    unfolding same_blocking_def passable_def free_def
  proof (intro allI)
    fix n :: cell
    obtain r c where n: "n = (r, c)" by (cases n)
    have "r = 0 \<or> r = 1" if "0 \<le> r" "r < 2" using that by auto
    moreover have "c = 0 \<or> c = 1 \<or> c = 2" if "0 \<le> c" "c < 3" using that by auto
    ultimately show "(0 \<le> fst n \<and> fst n < 2 \<and> 0 \<le> snd n \<and> snd n < 3 \<and> n \<notin> {(0, 1)}) =
       (0 \<le> fst n \<and> fst n < int (length [[0, 1, 0], [0, 0, 0 :: int]]) \<and> 0 \<le> snd n \<and>
        snd n < int (length (hd [[0, 1, 0], [0, 0, 0 :: int]])) \<and>
        grid_at [[0, 1, 0], [0, 0, 0]] (fst n) (snd n) = Inr 0)"
      unfolding n by (auto simp: grid_at_def py_get_def)
  qed
  have d: "route [[0, 1, 0], [0, 0, 0]] (0, 0) (0, 2) [(0, 0), (1, 0), (1, 1), (1, 2), (0, 2)]"
    by (simp add: route_def adjacent_def moves4_def free_def grid_at_def py_get_def)
  have e: "length [(0, 0), (1, 0), (1, 1), (1, 2), (0, 2) :: cell] \<le> 1000000000" by simp
  from planners_agree [OF a b chooser_Min d e] a b chooser_Min d e show ?thesis by auto
qed

text \<open>
  The claim as stated, for every reachable goal, fails beyond the sentinel of \<open>astar\<close>:
  on the one-column grid of \<open>1000000001\<close> free cells the far end is reachable,
  \<open>a_star\<close> returns a path to it and \<open>astar\<close> returns \<open>None\<close>, so the two planners
  do not both return a path.
\<close>

theorem planners_agree_counterexample:
  "wf_grid (replicate 1000000001 [0]) \<and>
   same_blocking (replicate 1000000001 [0]) 1000000001 1 {} \<and>
   reachable (replicate 1000000001 [0]) (0, 0) (1000000000, 0) \<and>
   astar (replicate 1000000001 [0]) (0, 0) (1000000000, 0) = Some (Inr None) \<and>
   (\<exists>p2. a_star (\<lambda>k. Min) (0, 0) (1000000000, 0) 1000000001 1 {} = Some (Inr p2) \<and>
      route (replicate 1000000001 [0]) (0, 0) (1000000000, 0) p2)"
proof -
  let ?G = "replicate 1000000001 [0 :: int]"
  have len: "length ?G = 1000000001" by (rule length_replicate)
  have hd: "hd ?G = [0]" by (rule hd_replicate) simp
  have st: "set ?G = {[0]}" by (simp only: set_replicate_conv_if) simp
  have wf: "wf_grid ?G" unfolding wf_grid_def st hd using len by auto
  have of: "obstacle_free ?G" unfolding obstacle_free_def st using wf by simp
  have ib: "in_bounds ?G n \<longleftrightarrow> 0 \<le> fst n \<and> fst n < 1000000001 \<and> 0 \<le> snd n \<and> snd n < 1" for n
    unfolding in_bounds_def len hd by simp
  have fr: "free ?G n \<longleftrightarrow> in_bounds ?G n" for n
    using obstacle_free_free [OF of, of n] by (auto simp: free_def in_bounds_def)
  have sb: "same_blocking ?G 1000000001 1 {}"
    unfolding same_blocking_def passable_def fr ib by simp
  have rch: "reach ?G (0, 0) (nat (heuristic (0, 0) (1000000000, 0))) (1000000000, 0)"
    by (rule obstacle_free_reach [OF of]) (simp_all add: ib)
  from reach_route [OF this] have re: "reachable ?G (0, 0) (1000000000, 0)"
    unfolding reachable_def by blast
  from a_star_correct [OF chooser_Min sb, of "(0, 0)" "(1000000000, 0)"] rch
  have as: "\<exists>p2. a_star (\<lambda>k. Min) (0, 0) (1000000000, 0) 1000000001 1 {} = Some (Inr p2) \<and>
      route ?G (0, 0) (1000000000, 0) p2" by blast
  have "1000000000 \<le> heuristic (0, 0) (1000000000, 0)" by (simp add: heuristic_def)
  from astar_far_None [OF wf this] wf sb re as show ?thesis by blast
qed

end
